theory Spec2Isabelle
  imports Complex_Main "HOL-Library.Multiset" "HOL-Library.Char_ord" "HOL-Library.List_Lexorder"
begin

section \<open>Python primitives used by the ingestion code\<close>

text \<open>
  The exceptions the modelled code can raise. Every \<open>raise\<close> of the source, and every
  failing built-in (a zero step of \<open>range\<close>, an index out of range), is a value
  \<open>Inl e\<close> of a result type \<open>py_error + 'a\<close>.
\<close>

datatype py_error =
    ValueError | IndexError | RuntimeError | AssertionError | FileNotFoundError
  | OverflowError | ZeroDivisionError

text \<open>
  A slice \<open>xs[s:e]\<close> of Python: a negative bound counts from the end, and both bounds
  are clamped to the list.
\<close>

definition py_bound :: "nat \<Rightarrow> int \<Rightarrow> nat" where
  "py_bound n i = (if i < 0 then nat (max 0 (int n + i)) else min (nat i) n)"

definition py_slice :: "'a list \<Rightarrow> int \<Rightarrow> int \<Rightarrow> 'a list" where
  "py_slice xs s e =
     (let s' = py_bound (length xs) s; e' = py_bound (length xs) e
      in take (e' - s') (drop s' xs))"

text \<open>
  The subscript \<open>xs[i]\<close>: positions \<open>0 \<dots> len - 1\<close> read from the front,
  positions \<open>-len \<dots> -1\<close> read from the back (\<open>xs[-1]\<close> is the last element),
  and every other position raises IndexError.
\<close>

definition py_index :: "'a list \<Rightarrow> int \<Rightarrow> py_error + 'a" where
  "py_index xs i =
     (if 0 \<le> i \<and> i < int (length xs) then Inr (xs ! nat i)
      else if i < 0 \<and> - int (length xs) \<le> i then Inr (xs ! nat (int (length xs) + i))
      else Inl IndexError)"

text \<open>
  \<open>range(start, stop, step)\<close>: a zero step raises ValueError, a positive step counts up
  to below \<open>stop\<close>, a negative step counts down to above \<open>stop\<close>.
\<close>

definition py_range :: "int \<Rightarrow> int \<Rightarrow> int \<Rightarrow> py_error + int list" where
  "py_range start stop step =
     (if step = 0 then Inl ValueError
      else if 0 < step then
        Inr (map (\<lambda>k. start + int k * step) [0 ..< nat ((stop - start + step - 1) div step)])
      else
        Inr (map (\<lambda>k. start + int k * step) [0 ..< nat ((start - stop - step - 1) div (- step))]))"

section \<open>Floating-point numbers of Python and NumPy\<close>

text \<open>
  A binary floating-point value is a real number, an infinity or a NaN. A format has a
  precision \<open>prec\<close> (bits of the significand), the exponent \<open>emin\<close> of its smallest
  positive value \<open>2 powi emin\<close> and the exponent \<open>emax\<close> of the first power of two it
  cannot hold: \<open>float32\<close> of NumPy and \<open>float\<close> of Python (\<open>float64\<close>).
\<close>

datatype fp = Finite real | PInf | NInf | NaN

record format =
  prec :: nat
  emin :: int
  emax :: int

definition binary32 :: format where
  "binary32 = \<lparr>prec = 24, emin = - 149, emax = 128\<rparr>"

definition binary64 :: format where
  "binary64 = \<lparr>prec = 53, emin = - 1074, emax = 1024\<rparr>"

text \<open>
  Rounding to nearest, ties to even. \<open>floor_log2 x\<close> is the exponent \<open>k\<close> with
  \<open>2 powi k \<le> x < 2 powi (k + 1)\<close> of a positive \<open>x\<close>, computed from the bit length of
  an integer. \<open>round_pos\<close> rounds a positive real to \<open>prec\<close> significant bits, or to a
  multiple of \<open>2 powi emin\<close> in the subnormal range; \<open>round_fmt\<close> adds the sign, zero
  and the overflow to an infinity.
\<close>

fun bit_length :: "nat \<Rightarrow> nat" where
  "bit_length n = (if n = 0 then 0 else Suc (bit_length (n div 2)))"

declare bit_length.simps [simp del]

definition floor_log2 :: "real \<Rightarrow> int" where
  "floor_log2 x =
     (if 1 \<le> x then int (bit_length (nat \<lfloor>x\<rfloor>)) - 1
      else - int (bit_length (nat (\<lceil>1 / x\<rceil> - 1))))"

definition round_half_even :: "real \<Rightarrow> int" where
  "round_half_even x =
     (let f = \<lfloor>x\<rfloor>; r = x - of_int f
      in if r < 1 / 2 then f else if 1 / 2 < r then f + 1 else if even f then f else f + 1)"

definition round_pos :: "format \<Rightarrow> real \<Rightarrow> real" where
  "round_pos fmt x =
     (let e = max (floor_log2 x - int (prec fmt) + 1) (emin fmt)
      in of_int (round_half_even (x / 2 powi e)) * 2 powi e)"

definition round_fmt :: "format \<Rightarrow> real \<Rightarrow> fp" where
  "round_fmt fmt x =
     (if x = 0 then Finite 0
      else
        (let r = round_pos fmt \<bar>x\<bar>
         in if 2 powi emax fmt \<le> r then (if 0 < x then PInf else NInf)
            else Finite (sgn x * r)))"

text \<open>
  \<open>a / b\<close> of two Python integers is the correctly rounded \<open>float\<close> of the quotient;
  it raises ZeroDivisionError for a zero divisor and OverflowError when the quotient is
  too large for a \<open>float\<close>. \<open>int(v)\<close> of a finite \<open>float\<close> truncates towards zero.
\<close>

definition int_truediv :: "int \<Rightarrow> int \<Rightarrow> py_error + real" where
  "int_truediv a b =
     (if b = 0 then Inl ZeroDivisionError
      else
        (case round_fmt binary64 (of_int a / of_int b) of
           Finite v \<Rightarrow> Inr v
         | _ \<Rightarrow> Inl OverflowError))"

definition py_int :: "real \<Rightarrow> int" where
  "py_int v = (if 0 \<le> v then \<lfloor>v\<rfloor> else \<lceil>v\<rceil>)"

section \<open>Character chunking: \<open>services/llamaindex_service/app/chunking.py\<close>\<close>

text \<open>
  The \<open>while start < text_len\<close> loop of \<open>split_text_to_chunks\<close>, with the list
  \<open>chunks\<close> it appends to. The loop is a partial function: a run that never leaves the
  loop is the value \<open>None\<close>.
\<close>

partial_function (option) chunk_loop ::
  "string \<Rightarrow> int \<Rightarrow> int \<Rightarrow> int \<Rightarrow> (string \<times> int) list \<Rightarrow> (string \<times> int) list option" where
  "chunk_loop txt chunk_size overlap start chunks =
     (if start < int (length txt) then
        (let e = start + chunk_size;
             chunks' = chunks @ [(py_slice txt start e, start)]
         in if e \<ge> int (length txt) then Some chunks'
            else chunk_loop txt chunk_size overlap (max 0 (e - overlap)) chunks')
      else Some chunks)"

declare chunk_loop.simps [code]

text \<open>
  Lines 15 and 16: an overlap of at least the chunk size is replaced by
  \<open>int(chunk_size / 10)\<close>, the truncated \<open>float\<close> quotient; the division can raise.
\<close>

definition clamp_overlap :: "int \<Rightarrow> int \<Rightarrow> py_error + int" where
  "clamp_overlap chunk_size overlap =
     (if overlap \<ge> chunk_size then
        (case int_truediv chunk_size 10 of
           Inl err \<Rightarrow> Inl err
         | Inr v \<Rightarrow> Inr (py_int v))
      else Inr overlap)"

text \<open>
  \<open>split_text_to_chunks(text, chunk_size, overlap)\<close>. The result is \<open>None\<close> when the
  loop does not return, \<open>Some (Inl err)\<close> when the call raises (ValueError for a
  non-positive chunk size, the error of the division) and \<open>Some (Inr chunks)\<close>
  otherwise.
\<close>

definition split_text_to_chunks ::
  "string \<Rightarrow> int \<Rightarrow> int \<Rightarrow> (py_error + (string \<times> int) list) option" where
  "split_text_to_chunks txt chunk_size overlap =
     (if txt = [] then Some (Inr [])
      else if chunk_size \<le> 0 then Some (Inl ValueError)
      else
        (case clamp_overlap chunk_size overlap of
           Inl err \<Rightarrow> Some (Inl err)
         | Inr overlap' \<Rightarrow> map_option Inr (chunk_loop txt chunk_size overlap' 0 [])))"

section \<open>Word chunking: \<open>TextChunker\<close> of \<open>python/ingest_worker.py\<close>\<close>

text \<open>
  \<open>text.split()\<close> splits at runs of whitespace and returns no empty word. A character
  is one code point below 256; the whitespace among them is what \<open>str.isspace\<close>
  accepts (tab to carriage return, the separators 28 to 31, the space, 133 and 160).
\<close>

definition is_space :: "char \<Rightarrow> bool" where
  "is_space c = (of_char c \<in> {9, 10, 11, 12, 13, 28, 29, 30, 31, 32, 133, 160 :: nat})"

fun split_aux :: "string \<Rightarrow> string \<Rightarrow> string list" where
  "split_aux cur [] = (if cur = [] then [] else [cur])"
| "split_aux cur (c # cs) =
     (if is_space c then (if cur = [] then split_aux [] cs else cur # split_aux [] cs)
      else split_aux (cur @ [c]) cs)"

definition py_split :: "string \<Rightarrow> string list" where
  "py_split s = split_aux [] s"

text \<open>\<open>sep.join(ws)\<close>.\<close>

fun py_join :: "string \<Rightarrow> string list \<Rightarrow> string" where
  "py_join sep [] = []"
| "py_join sep [w] = w"
| "py_join sep (w # ws) = w @ sep @ py_join sep ws"

text \<open>\<open>str(i)\<close> of an integer, as the f-string \<open>f"{source_url}:{i}"\<close> formats it.\<close>

fun digits_of :: "nat \<Rightarrow> string" where
  "digits_of n =
     (if n < 10 then [char_of (48 + n)] else digits_of (n div 10) @ [char_of (48 + n mod 10)])"

declare digits_of.simps [simp del]

definition py_str :: "int \<Rightarrow> string" where
  "py_str i = (if i < 0 then CHR ''-'' # digits_of (nat (- i)) else digits_of (nat i))"

text \<open>
  The dictionary \<open>chunk_text\<close> appends for each chunk it keeps. The MD5 digest of the
  standard library is a parameter \<open>md5\<close> of the model.
\<close>

record 'm chunk =
  chunk_id :: string
  chunk_body :: string
  source_url :: string
  chunk_index :: nat
  metadata :: 'm

text \<open>
  One iteration of the \<open>for i in range(...)\<close> loop: the window of \<open>chunk_size\<close> words
  at \<open>i\<close> is skipped (\<open>continue\<close>) when it has fewer than 50 words, and appended
  otherwise.
\<close>

definition chunk_step ::
  "(string \<Rightarrow> string) \<Rightarrow> string list \<Rightarrow> int \<Rightarrow> string \<Rightarrow> 'm \<Rightarrow> 'm chunk list \<Rightarrow> int \<Rightarrow> 'm chunk list" where
  "chunk_step md5 words chunk_size url md chunks i =
     (let chunk_words = py_slice words i (i + chunk_size);
          chunk_text = py_join '' '' chunk_words
      in if length chunk_words < 50 then chunks
         else chunks @ [\<lparr>chunk_id = md5 (url @ '':'' @ py_str i), chunk_body = chunk_text,
                          source_url = url, chunk_index = length chunks, metadata = md\<rparr>])"

text \<open>
  \<open>TextChunker(chunk_size, overlap).chunk_text(text, source_url, metadata)\<close>. The step
  of the range is \<open>chunk_size - overlap\<close>, unchecked: a zero step raises ValueError.
\<close>

definition chunk_text ::
  "(string \<Rightarrow> string) \<Rightarrow> int \<Rightarrow> int \<Rightarrow> string \<Rightarrow> string \<Rightarrow> 'm \<Rightarrow> py_error + 'm chunk list" where
  "chunk_text md5 chunk_size overlap txt url md =
     (let words = py_split txt
      in case py_range 0 (int (length words)) (chunk_size - overlap) of
           Inl err \<Rightarrow> Inl err
         | Inr is \<Rightarrow> Inr (foldl (chunk_step md5 words chunk_size url md) [] is))"

section \<open>Token chunking: \<open>TextChunker\<close> of \<open>python/ingest-worker.py\<close>\<close>



section \<open>Embedding provider: \<open>services/llamaindex_service/app/embeddings.py\<close>\<close>

text \<open>
  \<open>EmbeddingProvider._hash_key(text, model, provider)\<close>. A string stands for its UTF-8
  bytes; the SHA-256 hex digest of \<open>hashlib\<close> is the parameter \<open>sha256_hex\<close>, applied
  to the bytes the three \<open>update\<close> calls and the separator feed it. \<open>model or ""\<close>
  turns a missing model into the empty string.
\<close>

definition hash_key :: "(string \<Rightarrow> string) \<Rightarrow> string \<Rightarrow> string option \<Rightarrow> string \<Rightarrow> string" where
  "hash_key sha256_hex txt model provider =
     ''emb:'' @ sha256_hex (provider @ (case model of None \<Rightarrow> [] | Some m \<Rightarrow> m) @ [CHR 0x00] @ txt)"

text \<open>
  What the provider calls: the two backends (each takes the batch and the model name and
  returns the vectors or raises), whether the OpenAI fallback is usable
  (\<open>openai is not None and os.getenv("OPENAI_API_KEY")\<close>), and the digest.
\<close>

record 'v backends =
  embed_local_batch :: "string list \<Rightarrow> string option \<Rightarrow> int \<Rightarrow> py_error + 'v list"
  embed_openai_batch :: "string list \<Rightarrow> string option \<Rightarrow> py_error + 'v list"
  openai_usable :: bool
  sha256 :: "string \<Rightarrow> string"

text \<open>The log of backend invocations, with the batch each one received.\<close>

datatype backend_call = LocalCall "string list" | OpenAICall "string list"


text \<open>
  The deduplication loop: \<open>uniq_map\<close> maps a text to its position in \<open>uniq_texts\<close>,
  \<open>indices\<close> holds that position for every input.
\<close>

definition dedup_step ::
  "(string \<rightharpoonup> nat) \<times> string list \<times> nat list \<Rightarrow> string \<Rightarrow> (string \<rightharpoonup> nat) \<times> string list \<times> nat list" where
  "dedup_step st t =
     (case st of (uniq_map, uniq_texts, indices) \<Rightarrow>
        (case uniq_map t of
           None \<Rightarrow> (uniq_map(t \<mapsto> length uniq_texts), uniq_texts @ [t], indices @ [length uniq_texts])
         | Some k \<Rightarrow> (uniq_map, uniq_texts, indices @ [k])))"

definition dedup :: "string list \<Rightarrow> (string \<rightharpoonup> nat) \<times> string list \<times> nat list" where
  "dedup texts = foldl dedup_step (Map.empty, [], []) texts"

text \<open>
  One batch sent to the backend: the local model for the provider \<open>local\<close>, with the
  OpenAI fallback when the local call raises; OpenAI for every other provider name.
\<close>

definition embed_chunk ::
  "'v backends \<Rightarrow> string \<Rightarrow> string option \<Rightarrow> int \<Rightarrow> string list
     \<Rightarrow> (py_error + 'v list) \<times> backend_call list" where
  "embed_chunk b prov model batch_size chunk =
     (if prov = ''local'' then
        (case embed_local_batch b chunk model batch_size of
           Inr embs \<Rightarrow> (Inr embs, [LocalCall chunk])
         | Inl err \<Rightarrow>
             if openai_usable b
             then (embed_openai_batch b chunk model, [LocalCall chunk, OpenAICall chunk])
             else (Inl err, [LocalCall chunk]))
      else (embed_openai_batch b chunk model, [OpenAICall chunk]))"

text \<open>
  \<open>for j, emb in enumerate(embs)\<close>: the vector is stored at \<open>missing_idxs[i + j]\<close> and
  written to the cache under the key of \<open>missing[i + j]\<close>. The cache is a map from keys
  to vectors; a subscript beyond \<open>missing_idxs\<close> raises IndexError.
\<close>

fun assign_loop ::
  "(string \<Rightarrow> string) \<Rightarrow> string option \<Rightarrow> string \<Rightarrow> string list \<Rightarrow> nat list \<Rightarrow> int \<Rightarrow> 'v list \<Rightarrow> nat
     \<Rightarrow> 'v option list \<times> (string \<rightharpoonup> 'v) \<Rightarrow> py_error + 'v option list \<times> (string \<rightharpoonup> 'v)" where
  "assign_loop h model prov missing missing_idxs i [] j st = Inr st"
| "assign_loop h model prov missing missing_idxs i (emb # embs) j (results_by_uniq, cache) =
     (case py_index missing_idxs (i + int j) of
        Inl err \<Rightarrow> Inl err
      | Inr uniq_idx \<Rightarrow>
          (case py_index missing (i + int j) of
             Inl err \<Rightarrow> Inl err
           | Inr t \<Rightarrow>
               assign_loop h model prov missing missing_idxs i embs (Suc j)
                 (results_by_uniq[uniq_idx := Some emb], cache(hash_key h t model prov \<mapsto> emb))))"

text \<open>\<open>for i in range(0, len(missing), batch_size)\<close>, over the offsets of the range.\<close>

fun batch_loop ::
  "'v backends \<Rightarrow> string option \<Rightarrow> string \<Rightarrow> int \<Rightarrow> string list \<Rightarrow> nat list \<Rightarrow> int list
     \<Rightarrow> 'v option list \<times> (string \<rightharpoonup> 'v) \<times> backend_call list
     \<Rightarrow> py_error + 'v option list \<times> (string \<rightharpoonup> 'v) \<times> backend_call list" where
  "batch_loop b model prov batch_size missing missing_idxs [] st = Inr st"
| "batch_loop b model prov batch_size missing missing_idxs (i # is) (results_by_uniq, cache, calls) =
     (let chunk = py_slice missing i (i + batch_size)
      in case embed_chunk b prov model batch_size chunk of
           (Inl err, cs) \<Rightarrow> Inl err
         | (Inr embs, cs) \<Rightarrow>
             (case assign_loop (sha256 b) model prov missing missing_idxs i embs 0
                     (results_by_uniq, cache) of
                Inl err \<Rightarrow> Inl err
              | Inr (results', cache') \<Rightarrow>
                  batch_loop b model prov batch_size missing missing_idxs is
                    (results', cache', calls @ cs)))"

text \<open>
  \<open>EmbeddingProvider.get_batch_embeddings(texts, provider, model, batch_size)\<close>, with
  the provider name, the model and the batch size as the first lines resolve them from
  the arguments and the environment. The cache (Redis or the LRU map) is a map from keys
  to vectors, read by \<open>_get_cached\<close> and written by \<open>_set_cached\<close>. The result is the
  list \<open>final\<close> (an entry is \<open>None\<close> where Python's list holds \<open>None\<close>), the cache after
  the call and the backend invocations in order.
\<close>

definition get_batch_embeddings ::
  "'v backends \<Rightarrow> (string \<rightharpoonup> 'v) \<Rightarrow> string list \<Rightarrow> string \<Rightarrow> string option \<Rightarrow> int
     \<Rightarrow> py_error + 'v option list \<times> (string \<rightharpoonup> 'v) \<times> backend_call list" where
  "get_batch_embeddings b cache texts prov model batch_size =
     (if texts = [] then Inr ([], cache, [])
      else
        (case dedup texts of (uniq_map, uniq_texts, indices) \<Rightarrow>
           (let results_by_uniq = map (\<lambda>t. cache (hash_key (sha256 b) t model prov)) uniq_texts;
                missing_idxs = filter (\<lambda>i. results_by_uniq ! i = None) [0 ..< length results_by_uniq];
                missing = map (\<lambda>i. uniq_texts ! i) missing_idxs
            in if missing = [] then Inr (map (\<lambda>idx. results_by_uniq ! idx) indices, cache, [])
               else
                 (case py_range 0 (int (length missing)) batch_size of
                    Inl err \<Rightarrow> Inl err
                  | Inr is \<Rightarrow>
                      (case batch_loop b model prov batch_size missing missing_idxs is
                              (results_by_uniq, cache, []) of
                         Inl err \<Rightarrow> Inl err
                       | Inr (results, cache', calls) \<Rightarrow>
                           Inr (map (\<lambda>idx. results ! idx) indices, cache', calls))))))"



section \<open>Vector stores: FAISS in the two ingestion workers, Chroma in the service\<close>

text \<open>
  Arithmetic of NumPy scalars in a format: the result of an operation on finite values
  is the rounded exact result, with the usual rules for infinities and NaN. A division
  by zero gives an infinity or NaN (NumPy warns and does not raise); zero is taken as
  positive. \<open>astype('float32')\<close> rounds every component to \<open>float32\<close>.
\<close>

fun fp_neg :: "fp \<Rightarrow> fp" where
  "fp_neg (Finite x) = Finite (- x)"
| "fp_neg PInf = NInf"
| "fp_neg NInf = PInf"
| "fp_neg NaN = NaN"

fun fp_add :: "format \<Rightarrow> fp \<Rightarrow> fp \<Rightarrow> fp" where
  "fp_add fmt (Finite x) (Finite y) = round_fmt fmt (x + y)"
| "fp_add fmt NaN y = NaN"
| "fp_add fmt x NaN = NaN"
| "fp_add fmt PInf NInf = NaN"
| "fp_add fmt NInf PInf = NaN"
| "fp_add fmt PInf y = PInf"
| "fp_add fmt NInf y = NInf"
| "fp_add fmt (Finite x) y = y"

definition fp_sub :: "format \<Rightarrow> fp \<Rightarrow> fp \<Rightarrow> fp" where
  "fp_sub fmt x y = fp_add fmt x (fp_neg y)"

fun fp_mul :: "format \<Rightarrow> fp \<Rightarrow> fp \<Rightarrow> fp" where
  "fp_mul fmt (Finite x) (Finite y) = round_fmt fmt (x * y)"
| "fp_mul fmt NaN y = NaN"
| "fp_mul fmt x NaN = NaN"
| "fp_mul fmt (Finite x) PInf = (if x = 0 then NaN else if 0 < x then PInf else NInf)"
| "fp_mul fmt (Finite x) NInf = (if x = 0 then NaN else if 0 < x then NInf else PInf)"
| "fp_mul fmt PInf (Finite y) = (if y = 0 then NaN else if 0 < y then PInf else NInf)"
| "fp_mul fmt NInf (Finite y) = (if y = 0 then NaN else if 0 < y then NInf else PInf)"
| "fp_mul fmt PInf PInf = PInf"
| "fp_mul fmt PInf NInf = NInf"
| "fp_mul fmt NInf PInf = NInf"
| "fp_mul fmt NInf NInf = PInf"

fun fp_div :: "format \<Rightarrow> fp \<Rightarrow> fp \<Rightarrow> fp" where
  "fp_div fmt (Finite x) (Finite y) =
     (if y = 0 then (if x = 0 then NaN else if 0 < x then PInf else NInf)
      else round_fmt fmt (x / y))"
| "fp_div fmt NaN y = NaN"
| "fp_div fmt x NaN = NaN"
| "fp_div fmt (Finite x) y = Finite 0"
| "fp_div fmt PInf (Finite y) = (if 0 \<le> y then PInf else NInf)"
| "fp_div fmt NInf (Finite y) = (if 0 \<le> y then NInf else PInf)"
| "fp_div fmt x y = NaN"

fun cast_float32 :: "fp \<Rightarrow> fp" where
  "cast_float32 (Finite x) = round_fmt binary32 x"
| "cast_float32 x = x"

definition astype_float32 :: "fp list \<Rightarrow> fp list" where
  "astype_float32 xs = map cast_float32 xs"

text \<open>
  The FAISS library is not part of the repository. \<open>faiss.IndexFlatL2(d)\<close> is modelled
  as FAISS documents it: an exact index holding the added \<open>float32\<close> vectors in order,
  whose \<open>search(q, k)\<close> returns for the query \<open>k\<close> pairs of a squared Euclidean
  distance and a label (the position of the vector), nearest first. The distance of
  two vectors is computed by a kernel of the library in \<open>float32\<close> arithmetic; the
  kernel is a parameter, and \<open>fvec_L2sqr_ref\<close> is the reference kernel of FAISS, which
  adds up the squared differences from left to right. The result places start out
  with the label \<open>-1\<close> and the largest \<open>float32\<close>, and a vector takes a place only
  with a distance below the one that holds it: a vector whose distance is infinite, NaN
  or \<open>FLT_MAX\<close> is never returned, and the places left over keep the label \<open>-1\<close>. A
  query of another dimension, or \<open>k \<le> 0\<close>, fails an assertion.
\<close>

record faiss_index =
  index_dim :: nat
  vectors :: "fp list list"

definition FLT_MAX :: real where
  "FLT_MAX = 340282346638528859811704183484516925440"

definition fvec_L2sqr_ref :: "fp list \<Rightarrow> fp list \<Rightarrow> fp" where
  "fvec_L2sqr_ref x y =
     foldl (\<lambda>res (a, b). let tmp = fp_sub binary32 a b in fp_add binary32 res (fp_mul binary32 tmp tmp))
       (Finite 0) (zip x y)"

definition candidates :: "(fp list \<Rightarrow> fp list \<Rightarrow> fp) \<Rightarrow> faiss_index \<Rightarrow> fp list \<Rightarrow> (real \<times> int) list" where
  "candidates l2sqr ix q =
     concat (map (\<lambda>i. case l2sqr q (vectors ix ! i) of
                         Finite d \<Rightarrow> if d < FLT_MAX then [(d, int i)] else []
                       | _ \<Rightarrow> [])
               [0 ..< length (vectors ix)])"

definition faiss_search ::
  "(fp list \<Rightarrow> fp list \<Rightarrow> fp) \<Rightarrow> faiss_index \<Rightarrow> fp list \<Rightarrow> int \<Rightarrow> py_error + (real \<times> int) list" where
  "faiss_search l2sqr ix q k =
     (if k \<le> 0 \<or> length q \<noteq> index_dim ix then Inl AssertionError
      else
        (let found = take (nat k) (sort_key fst (candidates l2sqr ix q))
         in Inr (found @ replicate (nat k - length found) (FLT_MAX, - 1))))"

text \<open>
  \<open>float(1 / (1 + dist))\<close> for the \<open>float32\<close> distance \<open>dist\<close> that FAISS returned. The
  sum and the quotient are NumPy scalar operations, rounded in the format \<open>fmt\<close>:
  \<open>float32\<close> under the promotion rules of NumPy 2, \<open>float64\<close> under those of NumPy 1.
  \<open>float\<close> converts the result without rounding.
\<close>

definition score :: "format \<Rightarrow> real \<Rightarrow> fp" where
  "score fmt d = fp_div fmt (Finite 1) (fp_add fmt (Finite 1) (Finite d))"

text \<open>
  The loop of \<open>FAISSVectorStore.search\<close> (\<open>ingest-worker.py\<close>) and of
  \<open>FAISSIndexManager.search\<close> (\<open>ingest_worker.py\<close>) over the distances and labels of
  the first query: a label below \<open>len(chunks)\<close> is looked up with \<open>chunks[idx]\<close>, the
  copy gets the score, and every other label is skipped. A hit is the pair of the chunk
  and its score. Both searches cast the query to \<open>float32\<close> first.
\<close>

fun collect_hits :: "format \<Rightarrow> 'c list \<Rightarrow> (real \<times> int) list \<Rightarrow> py_error + ('c \<times> fp) list" where
  "collect_hits fmt chunks [] = Inr []"
| "collect_hits fmt chunks ((d, idx) # rest) =
     (if idx < int (length chunks) then
        (case py_index chunks idx of
           Inl err \<Rightarrow> Inl err
         | Inr c \<Rightarrow>
             (case collect_hits fmt chunks rest of
                Inl err \<Rightarrow> Inl err
              | Inr hits \<Rightarrow> Inr ((c, score fmt d) # hits)))
      else collect_hits fmt chunks rest)"

record 'c faiss_store =
  store_index :: faiss_index
  store_chunks :: "'c list"

definition faiss_store_search ::
  "(fp list \<Rightarrow> fp list \<Rightarrow> fp) \<Rightarrow> format \<Rightarrow> 'c faiss_store \<Rightarrow> fp list \<Rightarrow> int
     \<Rightarrow> py_error + ('c \<times> fp) list" where
  "faiss_store_search l2sqr fmt store query_embedding k =
     (case faiss_search l2sqr (store_index store) (astype_float32 query_embedding) k of
        Inl err \<Rightarrow> Inl err
      | Inr found \<Rightarrow> collect_hits fmt (store_chunks store) found)"

definition index_manager_search ::
  "(fp list \<Rightarrow> fp list \<Rightarrow> fp) \<Rightarrow> format \<Rightarrow> faiss_index \<Rightarrow> 'c list \<Rightarrow> fp list \<Rightarrow> int
     \<Rightarrow> py_error + ('c \<times> fp) list" where
  "index_manager_search l2sqr fmt ix mds query_embedding k =
     (case faiss_search l2sqr ix (astype_float32 query_embedding) k of
        Inl err \<Rightarrow> Inl err
      | Inr found \<Rightarrow> collect_hits fmt mds found)"







section \<open>Persisted indexes and their purge: \<open>python/ingest-worker.py\<close>\<close>

text \<open>
  The directory \<open>CONFIG['faiss_dir']\<close>: the index files \<open><token>.index\<close>, by token, and
  the metadata files \<open><stem>.json\<close> in the order \<open>glob("*.json")\<close> lists them. A
  metadata file that \<open>json.load\<close> cannot read is \<open>None\<close>; a key that is missing, or an
  \<open>expires_at\<close> that \<open>datetime.fromisoformat\<close> rejects, is \<open>None\<close> in its field. A
  point in time is a number of microseconds.
\<close>

record 'c metadata_file =
  md_trial_token :: "string option"
  md_chunks :: "'c list"
  md_created_at :: int
  md_expires_at :: "int option"
  md_chunk_count :: nat

record 'c faiss_dir =
  index_files :: "string \<rightharpoonup> faiss_index"
  metadata_files :: "(string \<times> 'c metadata_file option) list"

definition three_days :: int where
  "three_days = 3 * 24 * 60 * 60 * 1000000"

text \<open>
  \<open>FAISSVectorStore.save\<close> for the store of \<open>trial_token\<close>; the two arguments after the
  store are the two readings of \<open>datetime.now()\<close>. \<open>open(path, 'w')\<close> replaces a file
  of the same name.
\<close>

definition save ::
  "string \<Rightarrow> 'c faiss_store \<Rightarrow> int \<Rightarrow> int \<Rightarrow> 'c faiss_dir \<Rightarrow> 'c faiss_dir" where
  "save trial_token store now1 now2 dir =
     dir\<lparr>index_files := (index_files dir)(trial_token \<mapsto> store_index store),
         metadata_files :=
           (trial_token,
            Some \<lparr>md_trial_token = Some trial_token, md_chunks = store_chunks store,
                  md_created_at = now1, md_expires_at = Some (now2 + three_days),
                  md_chunk_count = length (store_chunks store)\<rparr>)
           # filter (\<lambda>f. fst f \<noteq> trial_token) (metadata_files dir)\<rparr>"

text \<open>
  \<open>FAISSVectorStore.load\<close>: FileNotFoundError when the index file is missing; the chunks
  come from the metadata file of the same name.
\<close>

definition load :: "string \<Rightarrow> 'c faiss_dir \<Rightarrow> py_error + 'c faiss_store" where
  "load trial_token dir =
     (case index_files dir trial_token of
        None \<Rightarrow> Inl FileNotFoundError
      | Some ix \<Rightarrow>
          (case map_of (metadata_files dir) trial_token of
             Some (Some md) \<Rightarrow> Inr \<lparr>store_index = ix, store_chunks = md_chunks md\<rparr>
           | Some None \<Rightarrow> Inl ValueError
           | None \<Rightarrow> Inl FileNotFoundError))"

text \<open>
  One iteration of the loop of \<open>purge_expired_trials\<close> on the metadata file \<open>stem\<close>
  with the content read from it. Every exception inside the \<open>try\<close> is caught and logged:
  the iteration ends with what it had done so far. The index file deleted is the one
  named by the \<open>trial_token\<close> inside the metadata.
\<close>

definition purge_step :: "int \<Rightarrow> 'c faiss_dir \<times> nat \<Rightarrow> string \<times> 'c metadata_file option \<Rightarrow> 'c faiss_dir \<times> nat" where
  "purge_step now st f =
     (case st of (dir, purged) \<Rightarrow>
      (case snd f of
         None \<Rightarrow> (dir, purged)
       | Some md \<Rightarrow>
           (case md_expires_at md of
              None \<Rightarrow> (dir, purged)
            | Some expires_at \<Rightarrow>
                if now > expires_at then
                  (case md_trial_token md of
                     None \<Rightarrow> (dir, purged)
                   | Some trial_token \<Rightarrow>
                       (let dir1 = dir\<lparr>index_files := (index_files dir)(trial_token := None)\<rparr>
                        in if fst f \<in> fst ` set (metadata_files dir1)
                           then (dir1\<lparr>metadata_files :=
                                    filter (\<lambda>g. fst g \<noteq> fst f) (metadata_files dir1)\<rparr>,
                                 Suc purged)
                           else (dir1, purged)))
                else (dir, purged))))"

text \<open>
  \<open>purge_expired_trials()\<close>, with the clock as the argument \<open>now\<close> (one reading for
  the whole run): the directory afterwards and the count returned.
\<close>

definition purge_expired_trials :: "int \<Rightarrow> 'c faiss_dir \<Rightarrow> 'c faiss_dir \<times> nat" where
  "purge_expired_trials now dir = foldl (purge_step now) (dir, 0) (metadata_files dir)"

text \<open>
  The directories \<open>save\<close> produces: one metadata file per stem, each readable, naming its
  own stem as the trial token and carrying an expiry time.
\<close>

definition saved_dir :: "'c faiss_dir \<Rightarrow> bool" where
  "saved_dir dir =
     (distinct (map fst (metadata_files dir)) \<and>
      list_all (\<lambda>f. case snd f of
                      None \<Rightarrow> False
                    | Some md \<Rightarrow> md_trial_token md = Some (fst f) \<and> md_expires_at md \<noteq> None)
        (metadata_files dir))"

definition expired :: "int \<Rightarrow> 'c metadata_file option \<Rightarrow> bool" where
  "expired now c =
     (case c of None \<Rightarrow> False
      | Some md \<Rightarrow> (case md_expires_at md of None \<Rightarrow> False | Some e \<Rightarrow> e < now))"

section \<open>Crawlers: \<open>WebsiteCrawler\<close> (\<open>ingest_worker.py\<close>) and \<open>WebCrawler\<close> (\<open>ingest-worker.py\<close>)\<close>

text \<open>
  The network and the HTML parser are outside the repository. A site is what the
  crawlers can observe of it: the answer of \<open>robots.txt\<close> for a URL, whether a URL is on
  the start domain, the response to a GET (\<open>None\<close> when \<open>requests.get\<close> raises), and the
  text, the title and the links the parser finds in a page.
\<close>

record response =
  status_code :: int
  is_html :: bool
  body :: string

record site =
  can_fetch :: "string \<Rightarrow> bool"
  on_base_domain :: "string \<Rightarrow> bool"
  get :: "string \<Rightarrow> response option"
  extract_text :: "string \<Rightarrow> string"
  extract_title :: "string \<Rightarrow> string"
  extract_links :: "string \<Rightarrow> string \<Rightarrow> string list"
  from_html :: "string \<Rightarrow> string"
  hrefs :: "string \<Rightarrow> string \<Rightarrow> string list"

text \<open>A crawled page (the timestamp of \<open>WebsiteCrawler\<close> is left out).\<close>

record page =
  page_url :: string
  page_title :: string
  page_text :: string
  page_depth :: int

text \<open>
  The state of a crawl loop: the frontier (\<open>to_visit\<close>, \<open>queue\<close>) with the depth of each
  URL, the set \<open>self.visited\<close>, and the pages collected so far.
\<close>

record crawl_state =
  to_visit :: "(string \<times> int) list"
  visited :: "string set"
  crawled_pages :: "page list"

text \<open>
  One iteration of the \<open>while\<close> loop of \<open>WebsiteCrawler.crawl\<close>, for a non-empty
  frontier: the body from \<open>to_visit.pop(0)\<close> to the end, each \<open>continue\<close> and the
  \<open>except\<close> clause ending the iteration with the state reached.
\<close>

definition website_step :: "site \<Rightarrow> int \<Rightarrow> crawl_state \<Rightarrow> crawl_state" where
  "website_step w max_depth s =
     (case to_visit s of
        [] \<Rightarrow> s
      | (url, depth) # rest \<Rightarrow>
          if url \<in> visited s \<or> depth > max_depth then s\<lparr>to_visit := rest\<rparr>
          else if \<not> can_fetch w url then s\<lparr>to_visit := rest\<rparr>
          else
            (let s1 = s\<lparr>to_visit := rest, visited := insert url (visited s)\<rparr>
             in case get w url of
                  None \<Rightarrow> s1
                | Some resp \<Rightarrow>
                    if status_code resp \<noteq> 200 then s1
                    else
                      (let html = body resp;
                           content = extract_text w html;
                           s2 = (if content \<noteq> [] \<and> length content > 100
                                 then s1\<lparr>crawled_pages := crawled_pages s1 @
                                        [\<lparr>page_url = url, page_title = extract_title w html,
                                          page_text = content, page_depth = depth\<rparr>]\<rparr>
                                 else s1)
                       in if depth < max_depth
                          then s2\<lparr>to_visit := to_visit s2 @
                                 map (\<lambda>link. (link, depth + 1))
                                   (filter (\<lambda>link. link \<notin> visited s2) (extract_links w html url))\<rparr>
                          else s2)))"

text \<open>
  One iteration of the \<open>while queue\<close> loop of \<open>WebCrawler.crawl\<close>. \<open>raise_for_status\<close>
  raises for a status from 400 on; the URL is marked visited only after a page was read.
\<close>

definition web_step :: "site \<Rightarrow> int \<Rightarrow> crawl_state \<Rightarrow> crawl_state" where
  "web_step w max_depth s =
     (case to_visit s of
        [] \<Rightarrow> s
      | (url, depth) # rest \<Rightarrow>
          if depth > max_depth then s\<lparr>to_visit := rest\<rparr>
          else if url \<in> visited s then s\<lparr>to_visit := rest\<rparr>
          else if \<not> on_base_domain w url then s\<lparr>to_visit := rest\<rparr>
          else if \<not> can_fetch w url then s\<lparr>to_visit := rest\<rparr>
          else
            (let s1 = s\<lparr>to_visit := rest\<rparr>
             in case get w url of
                  None \<Rightarrow> s1
                | Some resp \<Rightarrow>
                    if 400 \<le> status_code resp \<and> status_code resp < 600 then s1
                    else if \<not> is_html resp then s1
                    else
                      (let content = from_html w (body resp);
                           s2 = (if \<exists>c \<in> set content. \<not> is_space c
                                 then s1\<lparr>crawled_pages := crawled_pages s1 @
                                        [\<lparr>page_url = url, page_title = [],
                                          page_text = content, page_depth = depth\<rparr>]\<rparr>
                                 else s1);
                           s3 = s2\<lparr>visited := insert url (visited s2)\<rparr>
                       in if depth < max_depth
                          then s3\<lparr>to_visit := to_visit s3 @
                                 map (\<lambda>next_url. (next_url, depth + 1))
                                   (filter (\<lambda>next_url. next_url \<notin> visited s3)
                                      (hrefs w (body resp) url))\<rparr>
                          else s3)))"

text \<open>
  The weight of a frontier entry: how many levels may still be opened below it. It
  measures the frontier for the termination of both loops.
\<close>

definition levels_left :: "int \<Rightarrow> string \<times> int \<Rightarrow> nat" where
  "levels_left max_depth e = nat (max_depth + 1 - snd e)"


lemma frontier_shrinks:
  assumes "front = e # rest" "front' = rest @ new" "\<forall>x \<in> set new. levels_left m x < levels_left m e"
  shows "(mset (map (levels_left m) front'), mset (map (levels_left m) front)) \<in> mult less_than"
proof -
  let ?I = "mset (map (levels_left m) rest)"
  let ?K = "mset (map (levels_left m) new)"
  let ?J = "{#levels_left m e#}"
  have "(?I + ?K, ?I + ?J) \<in> mult less_than"
  proof (rule one_step_implies_mult)
    show "?J \<noteq> {#}" by simp
    show "\<forall>k \<in> set_mset ?K. \<exists>j \<in> set_mset ?J. (k, j) \<in> less_than"
      using assms(3) by auto
  qed
  then show ?thesis using assms(1,2) by (simp add: add.commute)
qed

lemma website_step_frontier:
  assumes "to_visit s = e # rest"
  shows "\<exists>new. to_visit (website_step w m s) = rest @ new \<and>
           (\<forall>x \<in> set new. levels_left m x < levels_left m e)"
proof -
  obtain url depth where e: "e = (url, depth)" by (cases e)
  have deeper: "levels_left m (l, depth + 1) < levels_left m (url, depth)" if "depth < m" for l
    using that by (simp add: levels_left_def)
  show ?thesis
    using assms e deeper
    by (auto simp: website_step_def Let_def split: option.splits)
qed

lemma web_step_frontier:
  assumes "to_visit s = e # rest"
  shows "\<exists>new. to_visit (web_step w m s) = rest @ new \<and>
           (\<forall>x \<in> set new. levels_left m x < levels_left m e)"
proof -
  obtain url depth where e: "e = (url, depth)" by (cases e)
  have deeper: "levels_left m (l, depth + 1) < levels_left m (url, depth)" if "depth < m" for l
    using that by (simp add: levels_left_def)
  show ?thesis
    using assms e deeper
    by (auto simp: web_step_def Let_def split: option.splits)
qed

function website_loop :: "site \<Rightarrow> int \<Rightarrow> int \<Rightarrow> crawl_state \<Rightarrow> page list" where
  "website_loop w max_depth max_pages s =
     (if to_visit s \<noteq> [] \<and> int (length (crawled_pages s)) < max_pages
      then website_loop w max_depth max_pages (website_step w max_depth s)
      else crawled_pages s)"
  by pat_completeness auto
termination
proof (relation "inv_image (mult less_than)
    (\<lambda>(w, max_depth, max_pages, s). mset (map (levels_left max_depth) (to_visit s)))")
  show "wf (inv_image (mult less_than)
    (\<lambda>(w, max_depth, max_pages, s). mset (map (levels_left max_depth) (to_visit s))))"
    by (intro wf_inv_image wf_mult wf_less_than)
next
  fix w :: site and max_depth max_pages :: int and s :: crawl_state
  assume "to_visit s \<noteq> [] \<and> int (length (crawled_pages s)) < max_pages"
  then obtain e rest where f: "to_visit s = e # rest" by (cases "to_visit s") auto
  from website_step_frontier[OF f, of w max_depth]
  obtain new where "to_visit (website_step w max_depth s) = rest @ new"
    "\<forall>x \<in> set new. levels_left max_depth x < levels_left max_depth e"
    by blast
  from frontier_shrinks[OF f this]
  show "((w, max_depth, max_pages, website_step w max_depth s), (w, max_depth, max_pages, s))
    \<in> inv_image (mult less_than)
        (\<lambda>(w, max_depth, max_pages, s). mset (map (levels_left max_depth) (to_visit s)))"
    by simp
qed

function web_loop :: "site \<Rightarrow> int \<Rightarrow> crawl_state \<Rightarrow> page list" where
  "web_loop w max_depth s =
     (if to_visit s \<noteq> [] then web_loop w max_depth (web_step w max_depth s)
      else crawled_pages s)"
  by pat_completeness auto
termination
proof (relation "inv_image (mult less_than)
    (\<lambda>(w, max_depth, s). mset (map (levels_left max_depth) (to_visit s)))")
  show "wf (inv_image (mult less_than)
    (\<lambda>(w, max_depth, s). mset (map (levels_left max_depth) (to_visit s))))"
    by (intro wf_inv_image wf_mult wf_less_than)
next
  fix w :: site and max_depth :: int and s :: crawl_state
  assume "to_visit s \<noteq> []"
  then obtain e rest where f: "to_visit s = e # rest" by (cases "to_visit s") auto
  from web_step_frontier[OF f, of w max_depth]
  obtain new where "to_visit (web_step w max_depth s) = rest @ new"
    "\<forall>x \<in> set new. levels_left max_depth x < levels_left max_depth e"
    by blast
  from frontier_shrinks[OF f this]
  show "((w, max_depth, web_step w max_depth s), (w, max_depth, s))
    \<in> inv_image (mult less_than)
        (\<lambda>(w, max_depth, s). mset (map (levels_left max_depth) (to_visit s)))"
    by simp
qed

declare website_loop.simps [simp del]
declare web_loop.simps [simp del]

text \<open>
  \<open>WebsiteCrawler(base_url, max_depth, max_pages).crawl()\<close> and
  \<open>WebCrawler(start_url, max_depth).crawl()\<close>, each on a fresh crawler (nothing visited).
\<close>

definition website_crawl :: "site \<Rightarrow> string \<Rightarrow> int \<Rightarrow> int \<Rightarrow> page list" where
  "website_crawl w base_url max_depth max_pages =
     website_loop w max_depth max_pages
       \<lparr>to_visit = [(base_url, 0)], visited = {}, crawled_pages = []\<rparr>"

definition web_crawl :: "site \<Rightarrow> string \<Rightarrow> int \<Rightarrow> page list" where
  "web_crawl w start_url max_depth =
     web_loop w max_depth \<lparr>to_visit = [(start_url, 0)], visited = {}, crawled_pages = []\<rparr>"

text \<open>
  \<open>IngestionPipeline._crawl_website\<close> of \<open>ingest-worker.py\<close>: of the crawl input it
  reads \<open>url\<close> and \<open>crawl_depth\<close> (default 2); the page limit of the input is not read.
\<close>

record data_source =
  ds_url :: string
  ds_crawl_depth :: "int option"
  ds_max_pages :: int

definition crawl_website :: "site \<Rightarrow> data_source \<Rightarrow> page list" where
  "crawl_website w ds =
     web_crawl w (ds_url ds) (case ds_crawl_depth ds of None \<Rightarrow> 2 | Some depth \<Rightarrow> depth)"

section \<open>Backfill runner: \<open>python/reembed_runner.py\<close>\<close>

text \<open>
  The checkpoint is a JSON object from a tenant id (or \<open>__global_last_id\<close>) to the last
  id processed: an association list. A file holds such an object, or is \<open>Incomplete\<close>:
  opened for writing and not yet written in full, or not parsable.
\<close>

type_synonym dict = "(string \<times> string) list"

datatype file_content = Json dict | Incomplete

text \<open>
  The file operations of \<open>save_checkpoint\<close>: \<open>open(tmp, 'w')\<close> creates or truncates the
  file, \<open>json.dump\<close> completes it, \<open>os.replace(tmp, path)\<close> renames it over the target.
\<close>

datatype fs_op = OpenWrite string | Dump string dict | Replace string string

fun apply_fs_op :: "(string \<rightharpoonup> file_content) \<Rightarrow> fs_op \<Rightarrow> (string \<rightharpoonup> file_content)" where
  "apply_fs_op fs (OpenWrite p) = fs(p \<mapsto> Incomplete)"
| "apply_fs_op fs (Dump p d) = fs(p \<mapsto> Json d)"
| "apply_fs_op fs (Replace src dst) = (fs(dst := fs src))(src := None)"

definition save_checkpoint :: "string \<Rightarrow> dict \<Rightarrow> fs_op list" where
  "save_checkpoint path d =
     (let tmp = path @ ''.tmp'' in [OpenWrite tmp, Dump tmp d, Replace tmp path])"

definition load_checkpoint :: "(string \<rightharpoonup> file_content) \<Rightarrow> string \<Rightarrow> dict" where
  "load_checkpoint fs path = (case fs path of Some (Json d) \<Rightarrow> d | _ \<Rightarrow> [])"

text \<open>\<open>checkpoint[key] = value\<close> on the dictionary.\<close>

definition dict_set :: "string \<Rightarrow> string \<Rightarrow> dict \<Rightarrow> dict" where
  "dict_set k v d = (if k \<in> fst ` set d then map (\<lambda>p. if fst p = k then (k, v) else p) d
                     else d @ [(k, v)])"

text \<open>
  The table \<open>vector_documents\<close> behind the REST collaborator, with the columns the runner
  reads and writes. Ids are strings (UUIDs), ordered as strings.
\<close>

record 'v doc_row =
  r_id :: string
  r_tenant_id :: "string option"
  r_content :: "string option"
  r_embedding_768 :: "'v option"

text \<open>Python's truth value of an optional string: \<open>None\<close> and \<open>""\<close> are false.\<close>

definition truthy :: "string option \<Rightarrow> bool" where
  "truthy x = (case x of None \<Rightarrow> False | Some s \<Rightarrow> s \<noteq> [])"

text \<open>
  \<open>fetch_batch\<close>: the rows the query selects, as its parameters say: \<open>embedding_768\<close> is
  null, \<open>tenant_id\<close> equals the tenant when one is given, \<open>id\<close> is greater than
  \<open>last_id\<close> when one is given (\<open>if last_id:\<close>, so not for \<open>None\<close> and not for the empty
  string), ascending by id, at most \<open>batch_size\<close> rows.
\<close>

definition after_cursor :: "string option \<Rightarrow> string \<Rightarrow> bool" where
  "after_cursor last_id i = (case last_id of None \<Rightarrow> True | Some l \<Rightarrow> if l = [] then True else l < i)"

definition fetch_batch ::
  "'v doc_row list \<Rightarrow> string option \<Rightarrow> string option \<Rightarrow> int \<Rightarrow> 'v doc_row list" where
  "fetch_batch table tenant last_id batch_size =
     take (nat batch_size)
       (sort_key r_id
          (filter (\<lambda>r. r_embedding_768 r = None \<and>
                       (if truthy tenant then r_tenant_id r = tenant else True) \<and>
                       after_cursor last_id (r_id r))
             table))"

text \<open>\<open>upsert_embeddings\<close> with \<open>on_conflict=id\<close>: each posted row sets the embedding of the row with its id.\<close>

definition upsert_embeddings :: "'v doc_row list \<Rightarrow> (string \<times> 'v) list \<Rightarrow> 'v doc_row list" where
  "upsert_embeddings table rows =
     map (\<lambda>r. case map_of rows (r_id r) of
                 None \<Rightarrow> r
               | Some emb \<Rightarrow> r\<lparr>r_embedding_768 := Some emb\<rparr>) table"

text \<open>
  What a run does, in order: a fetch (with the cursor it sent and the ids it got), an
  embedding call and an upsert (with the ids of the batch), and the file operations of a
  checkpoint write.
\<close>

datatype event =
    Fetch "string option" "string list"
  | Embed "string list"
  | Upsert "string list"
  | Fs fs_op

text \<open>The command line, and the collaborators that can fail.\<close>

record args =
  a_tenant :: "string option"
  a_batch_size :: int
  a_max_rows :: int
  a_checkpoint_file :: string
  a_resume :: bool
  a_dry_run :: bool

record 'v collaborators =
  embed_batch :: "string list \<Rightarrow> py_error + 'v list"
  fetch_fails :: "string option \<Rightarrow> bool"
  upsert_fails :: "string list \<Rightarrow> bool"

record 'v run_state =
  st_table :: "'v doc_row list"
  st_checkpoint :: dict
  st_last_id :: "string option"
  st_processed :: nat
  st_trace :: "event list"

datatype outcome = Finished | Raised py_error | Running

text \<open>
  The handler \<open>except Exception\<close> of \<open>main\<close>: the checkpoint as it is in memory is saved
  and the exception is raised again.
\<close>

definition on_exception :: "args \<Rightarrow> py_error \<Rightarrow> 'v run_state \<Rightarrow> outcome \<times> 'v run_state" where
  "on_exception a err s =
     (Raised err, s\<lparr>st_trace := st_trace s @ map Fs (save_checkpoint (a_checkpoint_file a) (st_checkpoint s))\<rparr>)"

definition checkpoint_key :: "args \<Rightarrow> string" where
  "checkpoint_key a =
     (case a_tenant a of
        None \<Rightarrow> ''__global_last_id''
      | Some t \<Rightarrow> if t = [] then ''__global_last_id'' else t)"

text \<open>
  The \<open>while True\<close> loop of \<open>main\<close>, for at most \<open>fuel\<close> iterations (\<open>Running\<close> when they
  are used up). The optional validation call changes nothing and is left out.
\<close>

fun run_loop ::
  "nat \<Rightarrow> 'v collaborators \<Rightarrow> args \<Rightarrow> 'v run_state \<Rightarrow> outcome \<times> 'v run_state" where
  "run_loop 0 c a s = (Running, s)"
| "run_loop (Suc fuel) c a s =
     (if fetch_fails c (st_last_id s) then on_exception a RuntimeError s
      else
        (let batch = fetch_batch (st_table s) (a_tenant a) (st_last_id s) (a_batch_size a);
             ids = map r_id batch;
             texts = map (\<lambda>r. case r_content r of None \<Rightarrow> [] | Some t \<Rightarrow> t) batch;
             s1 = s\<lparr>st_trace := st_trace s @ [Fetch (st_last_id s) ids]\<rparr>
         in if batch = [] then (Finished, s1)
            else if a_dry_run a then
              (let s2 = s1\<lparr>st_last_id := Some (last ids), st_processed := st_processed s1 + length batch\<rparr>
               in if a_max_rows a \<noteq> 0 \<and> a_max_rows a \<le> int (st_processed s2) then (Finished, s2)
                  else run_loop fuel c a s2)
            else
              (let s2 = s1\<lparr>st_trace := st_trace s1 @ [Embed ids]\<rparr>
               in case embed_batch c texts of
                    Inl err \<Rightarrow> on_exception a err s2
                  | Inr embeddings \<Rightarrow>
                      if length embeddings < length batch then on_exception a IndexError s2
                      else if upsert_fails c ids then on_exception a RuntimeError s2
                      else
                        (let s3 = s2\<lparr>st_table := upsert_embeddings (st_table s2) (zip ids embeddings),
                                      st_trace := st_trace s2 @ [Upsert ids]\<rparr>;
                             cp = dict_set (checkpoint_key a) (last ids) (st_checkpoint s3);
                             s4 = s3\<lparr>st_last_id := Some (last ids), st_checkpoint := cp,
                                      st_trace := st_trace s3 @
                                        map Fs (save_checkpoint (a_checkpoint_file a) cp),
                                      st_processed := st_processed s3 + length batch\<rparr>
                         in if a_max_rows a \<noteq> 0 \<and> a_max_rows a \<le> int (st_processed s4)
                            then (Finished, s4)
                            else run_loop fuel c a s4))))"

text \<open>
  \<open>main\<close> from the loading of the checkpoint on: the file system \<open>fs\<close> and the table are
  what the run finds.
\<close>

definition main ::
  "nat \<Rightarrow> 'v collaborators \<Rightarrow> args \<Rightarrow> (string \<rightharpoonup> file_content) \<Rightarrow> 'v doc_row list
     \<Rightarrow> outcome \<times> 'v run_state" where
  "main fuel c a fs tbl =
     (let cp = (if a_resume a then load_checkpoint fs (a_checkpoint_file a) else [])
      in run_loop fuel c a
           \<lparr>st_table = tbl, st_checkpoint = cp, st_last_id = map_of cp (checkpoint_key a),
            st_processed = 0, st_trace = []\<rparr>)"

text \<open>
  Three checks on a trace. \<open>ids_above c\<close>: every id fetched, embedded or upserted is
  greater than \<open>c\<close>. \<open>dumps_follow_upserts key allowed\<close>: every checkpoint written to a
  file gives the key a value that is allowed: the one of the start, or the last id of a
  batch upserted earlier in the trace. \<open>never_incomplete path fs\<close>: the file at \<open>path\<close> is
  complete before and after every file operation of the trace.
\<close>

fun ids_above :: "string \<Rightarrow> event \<Rightarrow> bool" where
  "ids_above c (Fetch cursor ids) = list_all (\<lambda>i. c < i) ids"
| "ids_above c (Embed ids) = list_all (\<lambda>i. c < i) ids"
| "ids_above c (Upsert ids) = list_all (\<lambda>i. c < i) ids"
| "ids_above c (Fs op) = True"

fun dumps_follow_upserts :: "string \<Rightarrow> string option list \<Rightarrow> event list \<Rightarrow> bool" where
  "dumps_follow_upserts key allowed [] = True"
| "dumps_follow_upserts key allowed (Upsert ids # es) =
     dumps_follow_upserts key (if ids = [] then allowed else Some (last ids) # allowed) es"
| "dumps_follow_upserts key allowed (Fs (Dump p d) # es) =
     (map_of d key \<in> set allowed \<and> dumps_follow_upserts key allowed es)"
| "dumps_follow_upserts key allowed (e # es) = dumps_follow_upserts key allowed es"

fun never_incomplete :: "string \<Rightarrow> (string \<rightharpoonup> file_content) \<Rightarrow> event list \<Rightarrow> bool" where
  "never_incomplete path fs [] = (fs path \<noteq> Some Incomplete)"
| "never_incomplete path fs (Fs op # es) =
     (fs path \<noteq> Some Incomplete \<and> never_incomplete path (apply_fs_op fs op) es)"
| "never_incomplete path fs (e # es) = never_incomplete path fs es"

text \<open>
  The values allowed for the key after a trace, and the file system after the file
  operations of a trace.
\<close>

fun allowed_after :: "string option list \<Rightarrow> event list \<Rightarrow> string option list" where
  "allowed_after allowed [] = allowed"
| "allowed_after allowed (Upsert ids # es) =
     allowed_after (if ids = [] then allowed else Some (last ids) # allowed) es"
| "allowed_after allowed (e # es) = allowed_after allowed es"

fun fs_after :: "(string \<rightharpoonup> file_content) \<Rightarrow> event list \<Rightarrow> (string \<rightharpoonup> file_content)" where
  "fs_after fs [] = fs"
| "fs_after fs (Fs op # es) = fs_after (apply_fs_op fs op) es"
| "fs_after fs (e # es) = fs_after fs es"

section \<open>Concrete environments for the examples\<close>

text \<open>
  The stub of the repository's embedding tests: the local backend returns the one-element
  vector \<open>[len(t)]\<close> for every text, OpenAI is not configured, and the digest is the
  identity.
\<close>

definition length_backends :: "real list backends" where
  "length_backends =
     \<lparr>embed_local_batch = (\<lambda>ts m bs. Inr (map (\<lambda>t. [real (length t)]) ts)),
      embed_openai_batch = (\<lambda>ts m. Inl RuntimeError),
      openai_usable = False,
      sha256 = (\<lambda>s. s)\<rparr>"

text \<open>
  An OpenAI backend whose vectors tell the model apart: 1 for the model \<open>x\<close>, 2 for
  every other model (the default one included).
\<close>

definition model_tagged_backends :: "nat backends" where
  "model_tagged_backends =
     \<lparr>embed_local_batch = (\<lambda>ts m bs. Inl RuntimeError),
      embed_openai_batch = (\<lambda>ts m. Inr (map (\<lambda>t. if m = Some ''x'' then 1 else 2) ts)),
      openai_usable = True,
      sha256 = (\<lambda>s. s)\<rparr>"

text \<open>
  A directory with two saved trials: \<open>a\<close>, saved at time 5, and \<open>b\<close>, saved at time
  1000; each holds one vector and one chunk.
\<close>

definition one_chunk_store :: "string \<Rightarrow> string faiss_store" where
  "one_chunk_store c = \<lparr>store_index = \<lparr>index_dim = 1, vectors = [[Finite 0]]\<rparr>, store_chunks = [c]\<rparr>"

definition two_trials_dir :: "string faiss_dir" where
  "two_trials_dir =
     save ''b'' (one_chunk_store ''cb'') 1000 1001
       (save ''a'' (one_chunk_store ''ca'') 5 6 \<lparr>index_files = Map.empty, metadata_files = []\<rparr>)"

text \<open>
  A site of two pages: the start page \<open>/\<close> links to \<open>/a\<close>; every GET succeeds with an
  HTML page whose extracted text has 101 characters.
\<close>

definition two_page_site :: site where
  "two_page_site =
     \<lparr>can_fetch = (\<lambda>url. True),
      on_base_domain = (\<lambda>url. True),
      get = (\<lambda>url. Some \<lparr>status_code = 200, is_html = True, body = url\<rparr>),
      extract_text = (\<lambda>html. replicate 101 CHR ''x''),
      extract_title = (\<lambda>html. ''title''),
      extract_links = (\<lambda>html url. if url = ''/'' then [''/a''] else []),
      from_html = (\<lambda>html. replicate 101 CHR ''x''),
      hrefs = (\<lambda>html url. if url = ''/'' then [''/a''] else [])\<rparr>"

text \<open>
  A table of five rows of the tenant \<open>tn\<close>, none embedded yet, and collaborators that
  never fail (the embedding of a text is its length).
\<close>

definition five_rows :: "nat doc_row list" where
  "five_rows =
     map (\<lambda>i. \<lparr>r_id = i, r_tenant_id = Some ''tn'', r_content = Some i, r_embedding_768 = None\<rparr>)
       [''d4'', ''a1'', ''c3'', ''b2'', ''e5'']"

definition reliable :: "nat collaborators" where
  "reliable = \<lparr>embed_batch = (\<lambda>ts. Inr (map length ts)), fetch_fails = (\<lambda>cursor. False),
               upsert_fails = (\<lambda>ids. False)\<rparr>"

definition resume_args :: args where
  "resume_args = \<lparr>a_tenant = Some ''tn'', a_batch_size = 2, a_max_rows = 0,
                  a_checkpoint_file = ''cp.json'', a_resume = True, a_dry_run = False\<rparr>"

section \<open>Properties of the floating-point rounding\<close>

lemma bit_length_upper: "n < 2 ^ bit_length n"
proof (induction n rule: bit_length.induct)
  case (1 n)
  show ?case
  proof (cases "n = 0")
    case True
    then show ?thesis by (simp add: bit_length.simps)
  next
    case False
    then have "n div 2 < 2 ^ bit_length (n div 2)" using 1 by simp
    then have "n < 2 * 2 ^ bit_length (n div 2)" by linarith
    then show ?thesis using False by (subst bit_length.simps) simp
  qed
qed

lemma bit_length_lower: "0 < n \<Longrightarrow> 2 ^ (bit_length n - 1) \<le> n"
proof (induction n rule: bit_length.induct)
  case (1 n)
  show ?case
  proof (cases "n div 2 = 0")
    case True
    then have "bit_length (n div 2) = 0" by (simp add: bit_length.simps)
    then have "bit_length n = 1" using 1(2) by (subst bit_length.simps) simp
    then show ?thesis using 1(2) by simp
  next
    case False
    then have ih: "2 ^ (bit_length (n div 2) - 1) \<le> n div 2" using 1 by simp
    have pos: "0 < bit_length (n div 2)" using False by (subst bit_length.simps) simp
    have "bit_length n = Suc (bit_length (n div 2))" using 1(2) by (subst bit_length.simps) simp
    then have "bit_length n - 1 = Suc (bit_length (n div 2) - 1)" using pos by simp
    then have "(2::nat) ^ (bit_length n - 1) = 2 * 2 ^ (bit_length (n div 2) - 1)" by simp
    then show ?thesis using ih by linarith
  qed
qed

lemma bit_length_pos: "0 < n \<Longrightarrow> 0 < bit_length n"
  by (subst bit_length.simps) simp

lemma floor_log2_bounds:
  assumes "0 < x"
  shows "2 powi floor_log2 x \<le> x" "x < 2 powi (floor_log2 x + 1)"
proof -
  have "2 powi floor_log2 x \<le> x \<and> x < 2 powi (floor_log2 x + 1)"
  proof (cases "1 \<le> x")
    case True
    define N where "N = nat \<lfloor>x\<rfloor>"
    have f1: "1 \<le> \<lfloor>x\<rfloor>" using True by linarith
    then have "0 \<le> \<lfloor>x\<rfloor>" by linarith
    then have "int (nat \<lfloor>x\<rfloor>) = \<lfloor>x\<rfloor>" by (rule nat_0_le)
    then have "real_of_int (int N) = of_int \<lfloor>x\<rfloor>" by (simp only: N_def)
    then have rN: "real N = of_int \<lfloor>x\<rfloor>" by simp
    have N: "0 < N" "real N \<le> x" "x < real N + 1"
    proof -
      show "0 < N" using f1 unfolding N_def by linarith
      show "real N \<le> x" unfolding rN by simp
      show "x < real N + 1" unfolding rN by linarith
    qed
    have fl: "floor_log2 x = int (bit_length N) - 1" using True by (simp add: floor_log2_def N_def)
    have bp: "0 < bit_length N" using N(1) by (rule bit_length_pos)
    then have e1: "floor_log2 x = int (bit_length N - 1)" using fl by simp
    have e2: "floor_log2 x + 1 = int (bit_length N)" using fl by simp
    have "(2::real) ^ (bit_length N - 1) \<le> real N"
      using bit_length_lower[OF N(1)] by (metis of_nat_le_iff of_nat_numeral of_nat_power)
    then have "(2::real) ^ (bit_length N - 1) \<le> x" using N(2) by linarith
    then have a: "2 powi floor_log2 x \<le> x" unfolding e1 by (simp only: power_int_of_nat)
    have "N + 1 \<le> 2 ^ bit_length N" using bit_length_upper[of N] by simp
    then have "real (N + 1) \<le> (2::real) ^ bit_length N"
      by (metis of_nat_le_iff of_nat_numeral of_nat_power)
    then have "x < (2::real) ^ bit_length N" using N(3) by simp
    then have b: "x < 2 powi (floor_log2 x + 1)" unfolding e2 by (simp only: power_int_of_nat)
    show ?thesis using a b by simp
  next
    case False
    define M where "M = nat (\<lceil>1 / x\<rceil> - 1)"
    have y: "1 < 1 / x" using False assms by simp
    then have c2: "2 \<le> \<lceil>1 / x\<rceil>" by linarith
    have "0 \<le> \<lceil>1 / x\<rceil> - 1" using c2 by linarith
    then have "int (nat (\<lceil>1 / x\<rceil> - 1)) = \<lceil>1 / x\<rceil> - 1" by (rule nat_0_le)
    then have "int M = \<lceil>1 / x\<rceil> - 1" by (simp only: M_def)
    then have "real_of_int (int M) = of_int (\<lceil>1 / x\<rceil> - 1)" by (simp only:)
    then have rM: "real M = of_int \<lceil>1 / x\<rceil> - 1" by simp
    have M: "0 < M" "real M < 1 / x" "1 / x \<le> real M + 1"
    proof -
      show "0 < M" using c2 unfolding M_def by linarith
      show "real M < 1 / x" unfolding rM by linarith
      show "1 / x \<le> real M + 1" unfolding rM by simp
    qed
    have fl: "floor_log2 x = - int (bit_length M)" using False by (simp add: floor_log2_def M_def)
    have bp: "0 < bit_length M" using M(1) by (rule bit_length_pos)
    have "(2::real) ^ (bit_length M - 1) \<le> real M"
      using bit_length_lower[OF M(1)] by (metis of_nat_le_iff of_nat_numeral of_nat_power)
    then have lo: "(2::real) ^ (bit_length M - 1) < 1 / x" using M(2) by linarith
    have "M + 1 \<le> 2 ^ bit_length M" using bit_length_upper[of M] by simp
    then have "real (M + 1) \<le> (2::real) ^ bit_length M"
      by (metis of_nat_le_iff of_nat_numeral of_nat_power)
    then have hi: "1 / x \<le> (2::real) ^ bit_length M" using M(3) by simp
    have "1 / 2 ^ bit_length M \<le> x"
      using hi assms by (simp add: field_simps)
    then have a: "2 powi floor_log2 x \<le> x"
      by (simp add: fl power_int_minus field_simps)
    have e: "floor_log2 x + 1 = - int (bit_length M - 1)" using fl bp by simp
    have "x < 1 / 2 ^ (bit_length M - 1)"
      using lo assms by (simp add: field_simps)
    then have b: "x < 2 powi (floor_log2 x + 1)"
      unfolding e by (simp add: power_int_minus field_simps)
    show ?thesis using a b by simp
  qed
  then show "2 powi floor_log2 x \<le> x" "x < 2 powi (floor_log2 x + 1)" by simp_all
qed

lemma floor_log2_unique:
  assumes "2 powi k \<le> x" "x < 2 powi (k + 1)"
  shows "floor_log2 x = k"
proof -
  have "(0::real) < 2 powi k" by simp
  then have pos: "0 < x" using assms(1) by linarith
  note b = floor_log2_bounds[OF pos]
  have "\<not> floor_log2 x < k"
  proof
    assume "floor_log2 x < k"
    then have "floor_log2 x + 1 \<le> k" by simp
    then have "(2::real) powi (floor_log2 x + 1) \<le> 2 powi k" by (intro power_int_increasing) simp_all
    then show False using b(2) assms(1) by linarith
  qed
  moreover have "\<not> k < floor_log2 x"
  proof
    assume "k < floor_log2 x"
    then have "k + 1 \<le> floor_log2 x" by simp
    then have "(2::real) powi (k + 1) \<le> 2 powi floor_log2 x" by (intro power_int_increasing) simp_all
    then show False using b(1) assms(2) by linarith
  qed
  ultimately show ?thesis by linarith
qed

lemma floor_log2_mono:
  assumes "0 < x" "x \<le> y"
  shows "floor_log2 x \<le> floor_log2 y"
proof (rule ccontr)
  assume "\<not> floor_log2 x \<le> floor_log2 y"
  then have "floor_log2 y + 1 \<le> floor_log2 x" by simp
  then have "(2::real) powi (floor_log2 y + 1) \<le> 2 powi floor_log2 x"
    by (intro power_int_increasing) simp_all
  moreover have "0 < y" using assms by simp
  ultimately show False
    using floor_log2_bounds(1)[OF assms(1)] floor_log2_bounds(2)[OF \<open>0 < y\<close>] assms(2) by linarith
qed


lemma round_half_even_of_int [simp]: "round_half_even (of_int n) = n"
  by (simp add: round_half_even_def)

lemma round_half_even_mono:
  assumes "x \<le> y"
  shows "round_half_even x \<le> round_half_even y"
proof (cases "\<lfloor>x\<rfloor> = \<lfloor>y\<rfloor>")
  case True
  then show ?thesis using assms unfolding round_half_even_def Let_def by auto
next
  case False
  then have "\<lfloor>x\<rfloor> + 1 \<le> \<lfloor>y\<rfloor>" using assms floor_mono[OF assms] by linarith
  moreover have "round_half_even x \<le> \<lfloor>x\<rfloor> + 1" by (simp add: round_half_even_def Let_def)
  moreover have "\<lfloor>y\<rfloor> \<le> round_half_even y" by (simp add: round_half_even_def Let_def)
  ultimately show ?thesis by linarith
qed

lemma round_half_even_le: "x \<le> of_int n \<Longrightarrow> round_half_even x \<le> n"
  using round_half_even_mono[of x "of_int n"] by simp

lemma round_half_even_ge: "of_int n \<le> x \<Longrightarrow> n \<le> round_half_even x"
  using round_half_even_mono[of "of_int n" x] by simp

lemma round_pos_eq:
  "round_pos fmt x =
     of_int (round_half_even (x / 2 powi (max (floor_log2 x - int (prec fmt) + 1) (emin fmt)))) *
       2 powi (max (floor_log2 x - int (prec fmt) + 1) (emin fmt))"
  by (simp add: round_pos_def Let_def)

lemma round_pos_nonneg:
  assumes "0 \<le> x"
  shows "0 \<le> round_pos fmt x"
proof -
  let ?e = "max (floor_log2 x - int (prec fmt) + 1) (emin fmt)"
  have "(0::real) < 2 powi ?e" by simp
  then have "of_int 0 \<le> x / 2 powi ?e" using assms by simp
  then have "0 \<le> round_half_even (x / 2 powi ?e)" by (rule round_half_even_ge)
  then show ?thesis unfolding round_pos_eq by simp
qed

lemma round_pos_pow2:
  assumes "0 < prec fmt" "emin fmt \<le> k"
  shows "round_pos fmt (2 powi k) = 2 powi k"
proof -
  have "(2::real) powi k < 2 powi (k + 1)" by (intro power_int_strict_increasing) simp_all
  then have fl: "floor_log2 (2 powi k) = k" by (intro floor_log2_unique) simp_all
  define e where "e = max (k - int (prec fmt) + 1) (emin fmt)"
  have ek: "e \<le> k" using assms unfolding e_def by linarith
  then have "(2::real) powi k / 2 powi e = 2 powi (k - e)" by (simp add: power_int_diff)
  also have "\<dots> = 2 powi int (nat (k - e))" using ek by simp
  also have "\<dots> = 2 ^ nat (k - e)" by (simp only: power_int_of_nat)
  also have "\<dots> = of_int (2 ^ nat (k - e))" by simp
  finally have q: "(2::real) powi k / 2 powi e = of_int (2 ^ nat (k - e))" .
  have "round_pos fmt (2 powi k) = of_int (round_half_even (2 powi k / 2 powi e)) * 2 powi e"
    unfolding round_pos_eq fl e_def ..
  also have "\<dots> = of_int (2 ^ nat (k - e)) * 2 powi e"
    unfolding q by (simp only: round_half_even_of_int)
  also have "\<dots> = (2 powi k / 2 powi e) * 2 powi e" by (simp only: q)
  also have "\<dots> = 2 powi k" by simp
  finally show ?thesis .
qed

lemma round_pos_mono:
  assumes "0 < prec fmt" "0 < x" "x \<le> y"
  shows "round_pos fmt x \<le> round_pos fmt y"
proof -
  define p where "p = int (prec fmt)"
  define ex where "ex = max (floor_log2 x - p + 1) (emin fmt)"
  define ey where "ey = max (floor_log2 y - p + 1) (emin fmt)"
  have ypos: "0 < y" using assms by simp
  have rx: "round_pos fmt x = of_int (round_half_even (x / 2 powi ex)) * 2 powi ex"
    unfolding round_pos_eq ex_def p_def ..
  have ry: "round_pos fmt y = of_int (round_half_even (y / 2 powi ey)) * 2 powi ey"
    unfolding round_pos_eq ey_def p_def ..
  have fm: "floor_log2 x \<le> floor_log2 y" using assms(2,3) by (rule floor_log2_mono)
  then have le: "ex \<le> ey" unfolding ex_def ey_def by linarith
  have p1: "1 \<le> p" using assms(1) by (simp add: p_def)
  show ?thesis
  proof (cases "ex = ey")
    case True
    have "x / 2 powi ey \<le> y / 2 powi ey" using assms(3) by (simp add: divide_right_mono)
    then have "round_half_even (x / 2 powi ey) \<le> round_half_even (y / 2 powi ey)"
      by (rule round_half_even_mono)
    then have "real_of_int (round_half_even (x / 2 powi ey)) * 2 powi ey \<le>
        real_of_int (round_half_even (y / 2 powi ey)) * 2 powi ey"
      by (intro mult_right_mono) simp_all
    then show ?thesis unfolding rx ry True .
  next
    case False
    then have lt: "ex < ey" using le by simp
    then have ey: "ey = floor_log2 y - p + 1" unfolding ex_def ey_def by linarith
    have exl: "floor_log2 x + 1 \<le> ex + p" unfolding ex_def by linarith
    have pe: "0 \<le> p" "0 \<le> p - 1" using p1 by simp_all
    have "x < 2 powi (floor_log2 x + 1)" using assms(2) by (rule floor_log2_bounds)
    also have "\<dots> \<le> 2 powi (ex + p)" using exl by (intro power_int_increasing) simp_all
    finally have "x < 2 powi (ex + p)" .
    then have "x / 2 powi ex < 2 powi (ex + p) / 2 powi ex" by (simp add: divide_strict_right_mono)
    also have "\<dots> = 2 powi p" by (simp add: power_int_add)
    also have "\<dots> = 2 powi int (nat p)" using pe by simp
    also have "\<dots> = of_int (2 ^ nat p)" by (simp only: power_int_of_nat) simp
    finally have "x / 2 powi ex \<le> of_int (2 ^ nat p)" by simp
    then have "round_half_even (x / 2 powi ex) \<le> 2 ^ nat p" by (rule round_half_even_le)
    then have "real_of_int (round_half_even (x / 2 powi ex)) \<le> of_int (2 ^ nat p)"
      by (simp only: of_int_le_iff)
    then have "real_of_int (round_half_even (x / 2 powi ex)) * 2 powi ex \<le> of_int (2 ^ nat p) * 2 powi ex"
      by (intro mult_right_mono) simp_all
    also have "real_of_int (2 ^ nat p) = 2 powi int (nat p)" by (simp only: power_int_of_nat) simp
    also have "2 powi int (nat p) * (2::real) powi ex = 2 powi (ex + p)" using pe by (simp add: power_int_add)
    also have "\<dots> \<le> 2 powi floor_log2 y" using lt ey by (intro power_int_increasing) simp_all
    finally have upper: "round_pos fmt x \<le> 2 powi floor_log2 y" unfolding rx .
    have "2 powi floor_log2 y \<le> y" using ypos by (rule floor_log2_bounds)
    then have "2 powi floor_log2 y / 2 powi ey \<le> y / 2 powi ey" by (simp add: divide_right_mono)
    moreover have "(2::real) powi floor_log2 y / 2 powi ey = 2 powi (p - 1)"
      unfolding ey by (simp add: power_int_diff[symmetric])
    moreover have "(2::real) powi (p - 1) = 2 powi int (nat (p - 1))" using pe by simp
    moreover have "(2::real) powi int (nat (p - 1)) = of_int (2 ^ nat (p - 1))"
      by (simp only: power_int_of_nat) simp
    ultimately have "of_int (2 ^ nat (p - 1)) \<le> y / 2 powi ey" by simp
    then have "2 ^ nat (p - 1) \<le> round_half_even (y / 2 powi ey)" by (rule round_half_even_ge)
    then have "real_of_int (2 ^ nat (p - 1)) \<le> of_int (round_half_even (y / 2 powi ey))"
      by (simp only: of_int_le_iff)
    then have m1: "real_of_int (2 ^ nat (p - 1)) * 2 powi ey \<le>
        of_int (round_half_even (y / 2 powi ey)) * 2 powi ey"
      by (intro mult_right_mono) simp_all
    have m2: "real_of_int (2 ^ nat (p - 1)) * 2 powi ey = 2 powi floor_log2 y"
    proof -
      have "real_of_int (2 ^ nat (p - 1)) = 2 powi int (nat (p - 1))"
        by (simp only: power_int_of_nat) simp
      also have "\<dots> = 2 powi (p - 1)" using pe by simp
      finally have "real_of_int (2 ^ nat (p - 1)) * 2 powi ey = 2 powi (p - 1) * 2 powi ey" by simp
      also have "\<dots> = 2 powi (p - 1 + ey)" by (simp add: power_int_add)
      also have "p - 1 + ey = floor_log2 y" unfolding ey by simp
      finally show ?thesis .
    qed
    have lower: "2 powi floor_log2 y \<le> round_pos fmt y" using m1 unfolding ry m2 .
    show ?thesis using upper lower by linarith
  qed
qed

lemma round_pos_le_double:
  assumes "0 < prec fmt" "0 < x" "emin fmt \<le> floor_log2 x + 1"
  shows "round_pos fmt x \<le> 2 * x"
proof -
  have "x \<le> 2 powi (floor_log2 x + 1)" using floor_log2_bounds(2)[OF assms(2)] by simp
  then have "round_pos fmt x \<le> round_pos fmt (2 powi (floor_log2 x + 1))"
    using assms(1,2) by (intro round_pos_mono)
  also have "\<dots> = 2 powi (floor_log2 x + 1)" using assms(1,3) by (rule round_pos_pow2)
  also have "\<dots> = 2 * 2 powi floor_log2 x" by (simp add: power_int_add)
  also have "\<dots> \<le> 2 * x" using floor_log2_bounds(1)[OF assms(2)] by simp
  finally show ?thesis .
qed

lemma floor_log2_tenth:
  assumes "0 < n"
  shows "- 4 \<le> floor_log2 (of_int n / 10)"
proof (rule ccontr)
  assume "\<not> - 4 \<le> floor_log2 (of_int n / 10)"
  then have "floor_log2 (of_int n / 10) + 1 \<le> - 4" by simp
  then have "(2::real) powi (floor_log2 (of_int n / 10) + 1) \<le> 2 powi (- 4)"
    by (intro power_int_increasing) simp_all
  moreover have "real_of_int n / 10 < 2 powi (floor_log2 (of_int n / 10) + 1)"
    using assms by (intro floor_log2_bounds) simp
  moreover have "1 \<le> real_of_int n" using assms by simp
  ultimately show False by (simp add: power_int_minus)
qed

lemma int_truediv_tenth_bounds:
  assumes "0 < n"
  shows "case int_truediv n 10 of
           Inl err \<Rightarrow> err = OverflowError
         | Inr v \<Rightarrow> 0 \<le> py_int v \<and> py_int v < n"
proof -
  let ?x = "real_of_int n / 10"
  have x: "0 < ?x" using assms by simp
  have p: "0 < prec binary64" by (simp add: binary64_def)
  have "emin binary64 \<le> floor_log2 ?x + 1"
    using floor_log2_tenth[OF assms] by (simp add: binary64_def)
  with p x have "round_pos binary64 ?x \<le> 2 * ?x" by (rule round_pos_le_double)
  then have up: "round_pos binary64 ?x < of_int n" using assms by simp
  have lo: "0 \<le> round_pos binary64 ?x" using x by (intro round_pos_nonneg) simp
  show ?thesis
  proof (cases "2 powi emax binary64 \<le> round_pos binary64 ?x")
    case True
    then show ?thesis using x by (simp add: int_truediv_def round_fmt_def Let_def)
  next
    case False
    then have "int_truediv n 10 = Inr (round_pos binary64 ?x)"
      using x by (simp add: int_truediv_def round_fmt_def Let_def)
    moreover have "py_int (round_pos binary64 ?x) = \<lfloor>round_pos binary64 ?x\<rfloor>"
      using lo by (simp add: py_int_def)
    moreover have "0 \<le> \<lfloor>round_pos binary64 ?x\<rfloor>" using lo by simp
    moreover have "\<lfloor>round_pos binary64 ?x\<rfloor> < n" using up by linarith
    ultimately show ?thesis by simp
  qed
qed


lemma int_truediv_tenth_overflow:
  assumes "10 * 2 ^ 1024 \<le> n"
  shows "int_truediv n 10 = Inl OverflowError"
proof -
  let ?x = "real_of_int n / 10"
  have "real_of_int (10 * 2 ^ 1024) \<le> of_int n" using assms by (simp only: of_int_le_iff)
  then have ge: "2 powi 1024 \<le> ?x" by simp
  have "(0::real) < 2 powi 1024" by simp
  then have x: "0 < ?x" using ge by linarith
  have "round_pos binary64 (2 powi 1024) \<le> round_pos binary64 ?x"
    using ge by (intro round_pos_mono) (simp_all add: binary64_def)
  moreover have "round_pos binary64 (2 powi 1024) = 2 powi 1024"
    by (rule round_pos_pow2) (simp_all add: binary64_def)
  ultimately have "2 powi emax binary64 \<le> round_pos binary64 ?x" by (simp add: binary64_def)
  then show ?thesis using x by (simp add: int_truediv_def round_fmt_def Let_def)
qed

section \<open>Properties of the character chunker\<close>

lemma py_slice_nonneg:
  "0 \<le> s \<Longrightarrow> s \<le> e \<Longrightarrow> py_slice xs s e = take (nat e - nat s) (drop (nat s) xs)"
  by (auto simp: py_slice_def py_bound_def Let_def min_def)

lemma length_py_slice_nonneg:
  "0 \<le> s \<Longrightarrow> s \<le> e \<Longrightarrow> s \<le> int (length xs) \<Longrightarrow>
   int (length (py_slice xs s e)) = min e (int (length xs)) - s"
  by (auto simp: py_slice_nonneg min_def)

lemma chunk_loop_spec:
  assumes "0 < cs" "0 \<le> ov" "ov < cs"
  shows "0 \<le> start \<Longrightarrow> start < int (length txt) \<Longrightarrow>
    \<exists>new. chunk_loop txt cs ov start acc = Some (acc @ new) \<and> new \<noteq> [] \<and>
      map snd new = map (\<lambda>k. start + int k * (cs - ov)) [0 ..< length new] \<and>
      (\<forall>p \<in> set new. fst p = py_slice txt (snd p) (snd p + cs) \<and> 0 \<le> snd p \<and> snd p < int (length txt)) \<and>
      (\<forall>p \<in> set (butlast new). snd p + cs < int (length txt)) \<and>
      int (length txt) \<le> snd (last new) + cs \<and>
      (\<forall>j. start \<le> j \<and> j < int (length txt) \<longrightarrow> (\<exists>p \<in> set new. snd p \<le> j \<and> j < snd p + int (length (fst p))))"
proof (induction "nat (int (length txt) - start)" arbitrary: start acc rule: less_induct)
  case less
  let ?n = "int (length txt)"
  let ?e = "start + cs"
  let ?c = "(py_slice txt start ?e, start)"
  have len_c: "int (length (fst ?c)) = min ?e ?n - start"
    using less.prems assms by (simp add: length_py_slice_nonneg)
  show ?case
  proof (cases "?e \<ge> ?n")
    case True
    have "chunk_loop txt cs ov start acc = Some (acc @ [?c])"
      using less.prems True by (subst chunk_loop.simps) (simp add: Let_def)
    moreover have "\<forall>j. start \<le> j \<and> j < ?n \<longrightarrow> (\<exists>p \<in> set [?c]. snd p \<le> j \<and> j < snd p + int (length (fst p)))"
      using len_c True by auto
    ultimately show ?thesis using less.prems True
      by (intro exI[of _ "[?c]"]) simp
  next
    case False
    let ?s' = "?e - ov"
    have s': "0 \<le> ?s'" "?s' < ?n" "start < ?s'" using False assms less.prems by auto
    have step: "chunk_loop txt cs ov start acc = chunk_loop txt cs ov ?s' (acc @ [?c])"
      using less.prems False s' by (subst chunk_loop.simps) (simp add: Let_def max_def)
    have "nat (?n - ?s') < nat (?n - start)" using s' by linarith
    from less.hyps[OF this s'(1) s'(2), of "acc @ [?c]"]
    obtain new where new: "chunk_loop txt cs ov ?s' (acc @ [?c]) = Some ((acc @ [?c]) @ new)"
      "new \<noteq> []"
      "map snd new = map (\<lambda>k. ?s' + int k * (cs - ov)) [0 ..< length new]"
      "\<forall>p \<in> set new. fst p = py_slice txt (snd p) (snd p + cs) \<and> 0 \<le> snd p \<and> snd p < ?n"
      "\<forall>p \<in> set (butlast new). snd p + cs < ?n"
      "?n \<le> snd (last new) + cs"
      "\<forall>j. ?s' \<le> j \<and> j < ?n \<longrightarrow> (\<exists>p \<in> set new. snd p \<le> j \<and> j < snd p + int (length (fst p)))"
      by blast
    let ?new = "?c # new"
    have a: "chunk_loop txt cs ov start acc = Some (acc @ ?new)" using step new(1) by simp
    have "map (\<lambda>k. start + int k * (cs - ov)) [0 ..< length ?new]
        = start # map (\<lambda>k. start + int (Suc k) * (cs - ov)) [0 ..< length new]"
      by (simp add: upt_conv_Cons map_Suc_upt[symmetric] del: upt_Suc)
    also have "\<dots> = start # map (\<lambda>k. ?s' + int k * (cs - ov)) [0 ..< length new]"
      by (simp add: algebra_simps)
    finally have b: "map snd ?new = map (\<lambda>k. start + int k * (cs - ov)) [0 ..< length ?new]"
      using new(3) by simp
    have c: "\<forall>p \<in> set ?new. fst p = py_slice txt (snd p) (snd p + cs) \<and> 0 \<le> snd p \<and> snd p < ?n"
      using new(4) less.prems by simp
    have d: "\<forall>p \<in> set (butlast ?new). snd p + cs < ?n"
      using new(5) new(2) False by simp
    have e: "?n \<le> snd (last ?new) + cs" using new(6) new(2) by simp
    have f: "\<forall>j. start \<le> j \<and> j < ?n \<longrightarrow> (\<exists>p \<in> set ?new. snd p \<le> j \<and> j < snd p + int (length (fst p)))"
    proof (intro allI impI)
      fix j assume j: "start \<le> j \<and> j < ?n"
      show "\<exists>p \<in> set ?new. snd p \<le> j \<and> j < snd p + int (length (fst p))"
      proof (cases "j < ?e")
        case True
        then show ?thesis using j len_c False by auto
      next
        case False
        then have "?s' \<le> j" using assms by simp
        then show ?thesis using new(7) j by auto
      qed
    qed
    show ?thesis using a b c d e f by (intro exI[of _ ?new]) simp
  qed
qed

lemma py_slice_nth:
  assumes "0 \<le> s" "s \<le> j" "j < e" "j < int (length xs)"
  shows "py_slice xs s e ! nat (j - s) = xs ! nat j"
proof -
  have "nat (j - s) < nat e - nat s" using assms by linarith
  moreover have "nat s + nat (j - s) = nat j" using assms by linarith
  moreover have "nat s + nat (j - s) \<le> length xs" using assms by linarith
  ultimately show ?thesis using assms by (simp add: py_slice_nonneg)
qed

lemma split_text_to_chunks_loop:
  "txt \<noteq> [] \<Longrightarrow> 0 < chunk_size \<Longrightarrow> overlap < chunk_size \<Longrightarrow>
   split_text_to_chunks txt chunk_size overlap = map_option Inr (chunk_loop txt chunk_size overlap 0 [])"
  by (simp add: split_text_to_chunks_def clamp_overlap_def)

text \<open>
  C10. For a non-empty text, a positive chunk size and an overlap from 0 to below the
  chunk size, \<open>split_text_to_chunks\<close> returns a non-empty list of pairs (chunk, offset)
  with chunk = text[offset : offset + chunk_size]; the first offset is 0, consecutive
  offsets grow by chunk_size - overlap, the last chunk ends at the end of the text, and
  every character of the text stands in some chunk at its place.
\<close>

theorem split_text_to_chunks_covers:
  assumes "txt \<noteq> []" "0 < chunk_size" "0 \<le> overlap" "overlap < chunk_size"
  shows "\<exists>chunks. split_text_to_chunks txt chunk_size overlap = Some (Inr chunks) \<and>
           chunks \<noteq> [] \<and>
           (\<forall>p \<in> set chunks. fst p = py_slice txt (snd p) (snd p + chunk_size)) \<and>
           snd (hd chunks) = 0 \<and>
           (\<forall>i. Suc i < length chunks \<longrightarrow>
                snd (chunks ! Suc i) = snd (chunks ! i) + (chunk_size - overlap)) \<and>
           snd (last chunks) + int (length (fst (last chunks))) = int (length txt) \<and>
           (\<forall>j < length txt. \<exists>p \<in> set chunks.
                snd p \<le> int j \<and> int j < snd p + int (length (fst p)) \<and>
                fst p ! nat (int j - snd p) = txt ! j)"
proof -
  let ?n = "int (length txt)"
  have pos: "(0::int) \<le> 0" "0 < ?n" using assms(1) by simp_all
  from chunk_loop_spec[OF assms(2,3,4) pos, of "[]"]
  obtain new where new: "chunk_loop txt chunk_size overlap 0 [] = Some new"
      "new \<noteq> []"
      "map snd new = map (\<lambda>k. 0 + int k * (chunk_size - overlap)) [0 ..< length new]"
      "\<forall>p \<in> set new. fst p = py_slice txt (snd p) (snd p + chunk_size) \<and> 0 \<le> snd p \<and> snd p < ?n"
      "\<forall>p \<in> set (butlast new). snd p + chunk_size < ?n"
      "?n \<le> snd (last new) + chunk_size"
      "\<forall>j. 0 \<le> j \<and> j < ?n \<longrightarrow> (\<exists>p \<in> set new. snd p \<le> j \<and> j < snd p + int (length (fst p)))"
    by auto
  have res: "split_text_to_chunks txt chunk_size overlap = Some (Inr new)"
    using assms new(1) by (simp add: split_text_to_chunks_loop)
  have off: "snd (new ! i) = int i * (chunk_size - overlap)" if "i < length new" for i
  proof -
    have "snd (new ! i) = map snd new ! i" using that by simp
    also have "\<dots> = int i * (chunk_size - overlap)" using that by (subst new(3)) simp
    finally show ?thesis .
  qed
  have hd0: "snd (hd new) = 0" using off[of 0] new(2) by (simp add: hd_conv_nth)
  have steps: "\<forall>i. Suc i < length new \<longrightarrow>
      snd (new ! Suc i) = snd (new ! i) + (chunk_size - overlap)"
  proof (intro allI impI)
    fix i assume i: "Suc i < length new"
    have "snd (new ! Suc i) = int (Suc i) * (chunk_size - overlap)" using off[OF i] .
    moreover have "snd (new ! i) = int i * (chunk_size - overlap)" using off[of i] i by simp
    ultimately show "snd (new ! Suc i) = snd (new ! i) + (chunk_size - overlap)"
      by (simp add: algebra_simps)
  qed
  have lastp: "last new \<in> set new" using new(2) by simp
  have lp: "fst (last new) = py_slice txt (snd (last new)) (snd (last new) + chunk_size)"
      "0 \<le> snd (last new)" "snd (last new) < ?n"
    using new(4) lastp by blast+
  have "int (length (fst (last new))) = min (snd (last new) + chunk_size) ?n - snd (last new)"
    unfolding lp(1) using lp(2,3) assms(2) by (intro length_py_slice_nonneg) simp_all
  then have fin: "snd (last new) + int (length (fst (last new))) = ?n"
    using new(6) by simp
  have cov: "\<forall>j < length txt. \<exists>p \<in> set new.
      snd p \<le> int j \<and> int j < snd p + int (length (fst p)) \<and>
      fst p ! nat (int j - snd p) = txt ! j"
  proof (intro allI impI)
    fix j assume j: "j < length txt"
    then have "0 \<le> int j \<and> int j < ?n" by simp
    with new(7) have "\<exists>p \<in> set new. snd p \<le> int j \<and> int j < snd p + int (length (fst p))"
      by blast
    then obtain p where p: "p \<in> set new" "snd p \<le> int j" "int j < snd p + int (length (fst p))"
      by blast
    have fp: "fst p = py_slice txt (snd p) (snd p + chunk_size)" "0 \<le> snd p" "snd p < ?n"
      using new(4) p(1) by blast+
    have "int (length (fst p)) = min (snd p + chunk_size) ?n - snd p"
      unfolding fp(1) using fp(2,3) assms(2) by (intro length_py_slice_nonneg) simp_all
    then have "int j < snd p + chunk_size" using p(3) by simp
    then have "py_slice txt (snd p) (snd p + chunk_size) ! nat (int j - snd p) = txt ! nat (int j)"
      using fp(2) p(2) j by (intro py_slice_nth) simp_all
    then have "fst p ! nat (int j - snd p) = txt ! j" using fp(1) by simp
    then show "\<exists>p \<in> set new. snd p \<le> int j \<and> int j < snd p + int (length (fst p)) \<and>
        fst p ! nat (int j - snd p) = txt ! j"
      using p by blast
  qed
  have sl: "\<forall>p \<in> set new. fst p = py_slice txt (snd p) (snd p + chunk_size)"
    using new(4) by blast
  show ?thesis
    by (intro exI[of _ new] conjI) (fact res new(2) sl hd0 steps fin cov)+
qed

lemma split_text_to_chunks_example:
  "split_text_to_chunks ''abcdefghijklmnopqrstuvwxyz'' 10 2 =
     Some (Inr [(''abcdefghij'', 0), (''ijklmnopqr'', 8), (''qrstuvwxyz'', 16)])"
  by (simp add: split_text_to_chunks_def clamp_overlap_def chunk_loop.simps py_slice_def py_bound_def Let_def)

theorem split_text_to_chunks_covers_witness:
  "split_text_to_chunks ''abcdefghijklmnopqrstuvwxyz'' 10 2 =
     Some (Inr [(''abcdefghij'', 0), (''ijklmnopqr'', 8), (''qrstuvwxyz'', 16)]) \<and>
   (\<exists>chunks. split_text_to_chunks ''abcdefghijklmnopqrstuvwxyz'' 10 2 = Some (Inr chunks) \<and>
      chunks \<noteq> [] \<and>
      (\<forall>p \<in> set chunks. fst p = py_slice ''abcdefghijklmnopqrstuvwxyz'' (snd p) (snd p + 10)) \<and>
      snd (hd chunks) = 0 \<and>
      (\<forall>i. Suc i < length chunks \<longrightarrow> snd (chunks ! Suc i) = snd (chunks ! i) + (10 - 2)) \<and>
      snd (last chunks) + int (length (fst (last chunks))) =
        int (length ''abcdefghijklmnopqrstuvwxyz'') \<and>
      (\<forall>j < length ''abcdefghijklmnopqrstuvwxyz''. \<exists>p \<in> set chunks.
          snd p \<le> int j \<and> int j < snd p + int (length (fst p)) \<and>
          fst p ! nat (int j - snd p) = ''abcdefghijklmnopqrstuvwxyz'' ! j))"
proof
  show "split_text_to_chunks ''abcdefghijklmnopqrstuvwxyz'' 10 2 =
     Some (Inr [(''abcdefghij'', 0), (''ijklmnopqr'', 8), (''qrstuvwxyz'', 16)])"
    by (rule split_text_to_chunks_example)
  show "\<exists>chunks. split_text_to_chunks ''abcdefghijklmnopqrstuvwxyz'' 10 2 = Some (Inr chunks) \<and>
      chunks \<noteq> [] \<and>
      (\<forall>p \<in> set chunks. fst p = py_slice ''abcdefghijklmnopqrstuvwxyz'' (snd p) (snd p + 10)) \<and>
      snd (hd chunks) = 0 \<and>
      (\<forall>i. Suc i < length chunks \<longrightarrow> snd (chunks ! Suc i) = snd (chunks ! i) + (10 - 2)) \<and>
      snd (last chunks) + int (length (fst (last chunks))) =
        int (length ''abcdefghijklmnopqrstuvwxyz'') \<and>
      (\<forall>j < length ''abcdefghijklmnopqrstuvwxyz''. \<exists>p \<in> set chunks.
          snd p \<le> int j \<and> int j < snd p + int (length (fst p)) \<and>
          fst p ! nat (int j - snd p) = ''abcdefghijklmnopqrstuvwxyz'' ! j)"
    by (rule split_text_to_chunks_covers) simp_all
qed





lemma clamp_overlap_below:
  assumes "0 < chunk_size" "clamp_overlap chunk_size overlap = Inr ov"
  shows "ov < chunk_size"
proof (cases "overlap \<ge> chunk_size")
  case True
  then obtain v where v: "int_truediv chunk_size 10 = Inr v" "ov = py_int v"
    using assms(2) by (auto simp: clamp_overlap_def split: sum.splits)
  from int_truediv_tenth_bounds[OF assms(1)] v show ?thesis by simp
next
  case False
  then show ?thesis using assms(2) by (simp add: clamp_overlap_def)
qed






text \<open>
  Beyond the range of \<open>float\<close> the division raises: a chunk size of \<open>2 ^ 1030\<close> with
  an overlap as large makes the call raise OverflowError. From \<open>2 ^ 53\<close> on the float
  quotient need not be the integer quotient.
\<close>

lemma split_text_to_chunks_overflow:
  "split_text_to_chunks ''abc'' (2 ^ 1030) (2 ^ 1030) = Some (Inl OverflowError)"
proof -
  have "(10::int) * 2 ^ 1024 \<le> 2 ^ 1030" by simp
  then have "int_truediv (2 ^ 1030) 10 = Inl OverflowError" by (rule int_truediv_tenth_overflow)
  then show ?thesis by (simp add: split_text_to_chunks_def clamp_overlap_def)
qed


lemma split_aux_word:
  "\<forall>c \<in> set w. \<not> is_space c \<Longrightarrow> split_aux cur (w @ rest) = split_aux (cur @ w) rest"
  by (induction w arbitrary: cur) simp_all

lemma split_aux_words:
  "\<forall>c \<in> set cur. \<not> is_space c \<Longrightarrow>
   \<forall>w \<in> set (split_aux cur s). w \<noteq> [] \<and> (\<forall>c \<in> set w. \<not> is_space c)"
proof (induction s arbitrary: cur)
  case Nil
  then show ?case by simp
next
  case (Cons a s)
  show ?case
  proof (cases "is_space a")
    case True
    have "\<forall>w \<in> set (split_aux [] s). w \<noteq> [] \<and> (\<forall>c \<in> set w. \<not> is_space c)"
      by (rule Cons.IH) simp
    then show ?thesis using True Cons.prems by simp
  next
    case False
    have "\<forall>w \<in> set (split_aux (cur @ [a]) s). w \<noteq> [] \<and> (\<forall>c \<in> set w. \<not> is_space c)"
      by (rule Cons.IH) (use False Cons.prems in simp)
    then show ?thesis using False by simp
  qed
qed

lemma py_split_words:
  "w \<in> set (py_split s) \<Longrightarrow> w \<noteq> [] \<and> (\<forall>c \<in> set w. \<not> is_space c)"
  using split_aux_words[of "[]" s] by (simp add: py_split_def)

lemma is_space_blank: "is_space CHR '' ''"
  by (simp add: is_space_def)

lemma py_split_join:
  "\<forall>w \<in> set ws. w \<noteq> [] \<and> (\<forall>c \<in> set w. \<not> is_space c) \<Longrightarrow>
   py_split (py_join '' '' ws) = ws"
proof (induction "'' ''" ws rule: py_join.induct)
  case 1
  then show ?case by (simp add: py_split_def)
next
  case (2 w)
  then show ?case using split_aux_word[of w "[]" "[]"] by (simp add: py_split_def)
next
  case (3 w v vs)
  have "split_aux [] (w @ '' '' @ py_join '' '' (v # vs)) =
        split_aux w ('' '' @ py_join '' '' (v # vs))"
    using 3(2) split_aux_word[of w "[]"] by simp
  also have "\<dots> = w # split_aux [] (py_join '' '' (v # vs))"
    using 3(2) is_space_blank by simp
  finally show ?case using 3 by (simp add: py_split_def)
qed

lemma set_py_slice: "set (py_slice xs s e) \<subseteq> set xs"
  unfolding py_slice_def Let_def
  by (meson set_take_subset set_drop_subset subset_trans)

lemma word_count_window:
  "length (py_split (py_join '' '' (py_slice (py_split txt) i j))) =
   length (py_slice (py_split txt) i j)"
proof -
  have "\<forall>w \<in> set (py_slice (py_split txt) i j). w \<noteq> [] \<and> (\<forall>c \<in> set w. \<not> is_space c)"
    using set_py_slice[of "py_split txt" i j] py_split_words[of _ "txt"] by blast
  then show ?thesis by (simp add: py_split_join)
qed

lemma foldl_chunk_step_body:
  "map chunk_body (foldl (chunk_step md5 words cs url md) acc is) =
   map chunk_body acc @
   map (py_join '' '') (filter (\<lambda>w. 50 \<le> length w) (map (\<lambda>i. py_slice words i (i + cs)) is))"
  by (induction "is" arbitrary: acc) (simp_all add: chunk_step_def Let_def)

lemma foldl_chunk_step_index:
  "map chunk_index acc = [0 ..< length acc] \<Longrightarrow>
   map chunk_index (foldl (chunk_step md5 words cs url md) acc is) =
     [0 ..< length (foldl (chunk_step md5 words cs url md) acc is)]"
  by (induction "is" arbitrary: acc) (simp_all add: chunk_step_def Let_def)


lemma chunk_loop_full_chunks:
  assumes "0 < cs" "ov < cs"
  shows "0 \<le> start \<Longrightarrow> chunk_loop txt cs ov start acc = Some r \<Longrightarrow>
    \<exists>new. r = acc @ new \<and> (\<forall>p \<in> set (butlast new). int (length (fst p)) = cs)"
proof (induction "nat (int (length txt) - start)" arbitrary: start acc rule: less_induct)
  case less
  let ?n = "int (length txt)"
  let ?e = "start + cs"
  let ?c = "(py_slice txt start ?e, start)"
  show ?case
  proof (cases "start < ?n")
    case False
    then have "r = acc" using less.prems(2) by (subst (asm) chunk_loop.simps) simp
    then show ?thesis by simp
  next
    case True
    show ?thesis
    proof (cases "?e \<ge> ?n")
      case e: True
      have "r = acc @ [?c]"
        using less.prems(2) True e by (subst (asm) chunk_loop.simps) (simp add: Let_def)
      then show ?thesis by simp
    next
      case e: False
      let ?s' = "?e - ov"
      have s': "0 \<le> ?s'" "start < ?s'" using assms less.prems(1) by auto
      have step: "chunk_loop txt cs ov ?s' (acc @ [?c]) = Some r"
        using less.prems(2) True e s' by (subst (asm) chunk_loop.simps) (simp add: Let_def max_def)
      have "nat (?n - ?s') < nat (?n - start)" using s' True by linarith
      from less.hyps[OF this s'(1) step]
      obtain new where new: "r = (acc @ [?c]) @ new"
          "\<forall>p \<in> set (butlast new). int (length (fst p)) = cs"
        by blast
      have "int (length (fst ?c)) = min ?e ?n - start"
        using less.prems(1) True assms(1) by (simp add: length_py_slice_nonneg)
      then have full: "int (length (fst ?c)) = cs" using e by simp
      have "\<forall>p \<in> set (butlast (?c # new)). int (length (fst p)) = cs"
        using new(2) full by simp
      then show ?thesis using new(1) by (intro exI[of _ "?c # new"]) simp
    qed
  qed
qed

lemma split_text_to_chunks_full_chunks:
  assumes "0 < chunk_size" "split_text_to_chunks txt chunk_size overlap = Some (Inr chunks)"
  shows "\<forall>p \<in> set (butlast chunks). int (length (fst p)) = chunk_size"
proof (cases "txt = []")
  case True
  then show ?thesis using assms(2) by (simp add: split_text_to_chunks_def)
next
  case False
  obtain ov where c: "clamp_overlap chunk_size overlap = Inr ov"
    using False assms by (cases "clamp_overlap chunk_size overlap") (auto simp: split_text_to_chunks_def)
  have ov: "ov < chunk_size" using assms(1) c by (rule clamp_overlap_below)
  have "map_option Inr (chunk_loop txt chunk_size ov 0 []) = Some (Inr chunks)"
    using False assms c by (simp add: split_text_to_chunks_def)
  then have run: "chunk_loop txt chunk_size ov 0 [] = Some chunks" by auto
  have "(0::int) \<le> 0" by simp
  from chunk_loop_full_chunks[OF assms(1) ov this run] show ?thesis by simp
qed

text \<open>
  C5 (as amended). \<open>TextChunker.chunk_text\<close> of \<open>ingest_worker.py\<close> returns the
  windows of at least 50 words, in order and numbered from 0: every chunk it returns,
  the last one too, has at least 50 words, and a window of fewer words is dropped
  wherever it stands. \<open>split_text_to_chunks\<close> has no minimum: each of its chunks but
  the last has exactly \<open>chunk_size\<close> characters.
\<close>

theorem chunk_text_keeps_windows_of_50_words:
  assumes "chunk_text md5 chunk_size overlap txt url md = Inr chunks"
  shows "(\<forall>c \<in> set chunks. 50 \<le> length (py_split (chunk_body c))) \<and>
         (\<exists>is. py_range 0 (int (length (py_split txt))) (chunk_size - overlap) = Inr is \<and>
            map chunk_body chunks =
              map (py_join '' '') (filter (\<lambda>w. 50 \<le> length w)
                (map (\<lambda>i. py_slice (py_split txt) i (i + chunk_size)) is))) \<and>
         map chunk_index chunks = [0 ..< length chunks] \<and>
         (0 < chunk_size' \<longrightarrow>
          split_text_to_chunks txt' chunk_size' overlap' = Some (Inr chunks') \<longrightarrow>
          (\<forall>p \<in> set (butlast chunks'). int (length (fst p)) = chunk_size'))"
proof -
  let ?words = "py_split txt"
  let ?win = "\<lambda>i. py_slice ?words i (i + chunk_size)"
  obtain "is" where rng: "py_range 0 (int (length ?words)) (chunk_size - overlap) = Inr is"
    and res: "chunks = foldl (chunk_step md5 ?words chunk_size url md) [] is"
    using assms by (auto simp: chunk_text_def Let_def split: sum.splits)
  have bodies: "map chunk_body chunks =
      map (py_join '' '') (filter (\<lambda>w. 50 \<le> length w) (map ?win is))"
    unfolding res by (simp add: foldl_chunk_step_body)
  have idx: "map chunk_index chunks = [0 ..< length chunks]"
    unfolding res by (rule foldl_chunk_step_index) simp
  have big: "\<forall>c \<in> set chunks. 50 \<le> length (py_split (chunk_body c))"
  proof
    fix c assume "c \<in> set chunks"
    then have "chunk_body c \<in> set (map chunk_body chunks)" by simp
    then obtain i where i: "chunk_body c = py_join '' '' (?win i)" "50 \<le> length (?win i)"
      unfolding bodies by auto
    show "50 \<le> length (py_split (chunk_body c))"
      unfolding i(1) using i(2) by (simp add: word_count_window)
  qed
  have ex: "\<exists>is. py_range 0 (int (length ?words)) (chunk_size - overlap) = Inr is \<and>
      map chunk_body chunks =
        map (py_join '' '') (filter (\<lambda>w. 50 \<le> length w) (map ?win is))"
    using rng bodies by blast
  have full: "0 < chunk_size' \<longrightarrow>
      split_text_to_chunks txt' chunk_size' overlap' = Some (Inr chunks') \<longrightarrow>
      (\<forall>p \<in> set (butlast chunks'). int (length (fst p)) = chunk_size')"
    using split_text_to_chunks_full_chunks by blast
  show ?thesis by (intro conjI) (fact big ex idx full)+
qed

lemma chunk_text_example:
  "chunk_text (\<lambda>s. s) 50 48 (py_join '' '' (replicate 53 ''w'')) ''u'' () =
     Inr [\<lparr>chunk_id = ''u:0'', chunk_body = py_join '' '' (replicate 50 ''w''),
            source_url = ''u'', chunk_index = 0, metadata = ()\<rparr>,
          \<lparr>chunk_id = ''u:2'', chunk_body = py_join '' '' (replicate 50 ''w''),
            source_url = ''u'', chunk_index = 1, metadata = ()\<rparr>]"
  by code_simp

theorem chunk_text_keeps_windows_witness:
  "chunk_text (\<lambda>s. s) 50 48 (py_join '' '' (replicate 53 ''w'')) ''u'' () =
     Inr [\<lparr>chunk_id = ''u:0'', chunk_body = py_join '' '' (replicate 50 ''w''),
            source_url = ''u'', chunk_index = 0, metadata = ()\<rparr>,
          \<lparr>chunk_id = ''u:2'', chunk_body = py_join '' '' (replicate 50 ''w''),
            source_url = ''u'', chunk_index = 1, metadata = ()\<rparr>] \<and>
   50 \<le> length (py_split (py_join '' '' (replicate 50 ''w''))) \<and>
   list_all (\<lambda>p. int (length (fst p)) = 10)
     (butlast [(''abcdefghij'', 0::int), (''ijklmnopqr'', 8), (''qrstuvwxyz'', 16)])"
  using chunk_text_keeps_windows_of_50_words[OF chunk_text_example,
      of 10 "''abcdefghijklmnopqrstuvwxyz''" 2
         "[(''abcdefghij'', 0), (''ijklmnopqr'', 8), (''qrstuvwxyz'', 16)]"]
    chunk_text_example split_text_to_chunks_example
  by simp

theorem chunk_text_final_chunk_counterexample:
  "chunk_text (\<lambda>s. s) 600 100 ''hello world'' ''https://example.test'' () = Inr []"
  by (simp add: chunk_text_def py_split_def is_space_def py_range_def chunk_step_def
      py_slice_def py_bound_def)

section \<open>Properties of the embedding provider\<close>

text \<open>
  C7. Two different (provider, model) pairs get the same cache key for the same text:
  the provider and the model are fed to the digest one after the other with nothing
  between them, so only their concatenation counts. Here the pair (\<open>openai\<close>, \<open>x\<close>)
  and the pair (\<open>openaix\<close>, no model) collide, whatever the digest function is.
\<close>

theorem hash_key_collision:
  "hash_key h ''refund policy'' (Some ''x'') ''openai'' =
   hash_key h ''refund policy'' None ''openaix''"
  by (simp add: hash_key_def)

lemma hash_key_concat:
  "p1 @ m1 = p2 @ m2 \<Longrightarrow> hash_key h t (Some m1) p1 = hash_key h t (Some m2) p2"
proof -
  assume "p1 @ m1 = p2 @ m2"
  then have e: "p1 @ m1 @ CHR 0x00 # t = p2 @ m2 @ CHR 0x00 # t" by (metis append_assoc)
  show ?thesis by (simp add: hash_key_def e)
qed
















lemma get_batch_embeddings_example:
  "(case get_batch_embeddings length_backends Map.empty
      [''hello world'', ''hello world'', ''open-source model''] ''local''
      (Some ''all-mpnet-base-v2'') 16 of
      Inl err \<Rightarrow> False
    | Inr (final, cache', calls) \<Rightarrow>
        final = [Some [11], Some [11], Some [17]] \<and>
        calls = [LocalCall [''hello world'', ''open-source model'']])"
  by (simp add: get_batch_embeddings_def dedup_def dedup_step_def length_backends_def
      py_range_def py_slice_def py_bound_def embed_chunk_def py_index_def)


text \<open>
  The collision at work: the vector cached by a call for (\<open>openai\<close>, \<open>x\<close>) is
  returned to a call for (\<open>openaix\<close>, default model), which on an empty cache gets
  another vector from the backend.
\<close>

lemma cross_model_first_call: "get_batch_embeddings model_tagged_backends Map.empty [''refund policy''] ''openai'' (Some ''x'') 64
  = Inr ([Some 1], [hash_key (\<lambda>s. s) ''refund policy'' (Some ''x'') ''openai'' \<mapsto> 1], [OpenAICall [''refund policy'']])"
  by (simp add: get_batch_embeddings_def dedup_def dedup_step_def model_tagged_backends_def py_range_def py_slice_def py_bound_def embed_chunk_def py_index_def)

lemma cross_model_fresh_call: "get_batch_embeddings model_tagged_backends Map.empty [''refund policy''] ''openaix'' None 64
  = Inr ([Some 2], [hash_key (\<lambda>s. s) ''refund policy'' None ''openaix'' \<mapsto> 2], [OpenAICall [''refund policy'']])"
  by (simp add: get_batch_embeddings_def dedup_def dedup_step_def model_tagged_backends_def py_range_def py_slice_def py_bound_def embed_chunk_def py_index_def)

lemma cross_model_cache_hit: "get_batch_embeddings model_tagged_backends [hash_key (\<lambda>s. s) ''refund policy'' (Some ''x'') ''openai'' \<mapsto> 1] [''refund policy''] ''openaix'' None 64
  = Inr ([Some 1], [hash_key (\<lambda>s. s) ''refund policy'' (Some ''x'') ''openai'' \<mapsto> 1], [])"
  by (simp add: get_batch_embeddings_def dedup_def dedup_step_def model_tagged_backends_def hash_key_def)

section \<open>Properties of the vector stores\<close>

lemma FLT_MAX_eq: "FLT_MAX = (2 ^ 24 - 1) * 2 ^ 104"
  by (simp add: FLT_MAX_def)

lemma round_pos_one: "0 < prec fmt \<Longrightarrow> emin fmt \<le> 0 \<Longrightarrow> round_pos fmt 1 = 1"
  using round_pos_pow2[of fmt 0] by simp

lemma round_pos_top32: "round_pos binary32 (1 + FLT_MAX) = FLT_MAX"
proof -
  have "(2::real) powi 127 \<le> 1 + FLT_MAX" by (simp add: FLT_MAX_def)
  moreover have "1 + FLT_MAX < 2 powi (127 + 1)" by (simp add: FLT_MAX_def)
  ultimately have fl: "floor_log2 (1 + FLT_MAX) = 127" by (rule floor_log2_unique)
  have e: "max (127 - int (prec binary32) + 1) (emin binary32) = 104" by (simp add: binary32_def)
  have q: "(1 + FLT_MAX) / 2 powi 104 = of_int (2 ^ 24 - 1) + 1 / 2 ^ 104"
    by (simp add: FLT_MAX_eq field_simps)
  have "\<lfloor>real_of_int (2 ^ 24 - 1) + 1 / 2 ^ 104\<rfloor> = 2 ^ 24 - 1"
    by (rule floor_unique) simp_all
  then have "round_half_even ((1 + FLT_MAX) / 2 powi 104) = 2 ^ 24 - 1"
    unfolding q round_half_even_def Let_def by simp
  then show ?thesis unfolding round_pos_eq fl e by (simp add: FLT_MAX_eq)
qed

lemma fmt_top:
  assumes "fmt = binary32 \<or> fmt = binary64"
  shows "0 < prec fmt" "emin fmt \<le> - 128" "1 < (2::real) powi emax fmt"
    "round_pos fmt (1 + FLT_MAX) < 2 powi emax fmt" "round_pos fmt (1 + FLT_MAX) \<le> 2 powi 128"
proof -
  show p: "0 < prec fmt" using assms by (auto simp: binary32_def binary64_def)
  show m: "emin fmt \<le> - 128" using assms by (auto simp: binary32_def binary64_def)
  show "1 < (2::real) powi emax fmt" using assms by (auto simp: binary32_def binary64_def)
  have "1 + FLT_MAX \<le> 2 powi 128" by (simp add: FLT_MAX_def)
  moreover have "0 < 1 + FLT_MAX" by (simp add: FLT_MAX_def)
  ultimately have "round_pos fmt (1 + FLT_MAX) \<le> round_pos fmt (2 powi 128)"
    using p by (intro round_pos_mono)
  moreover have "round_pos fmt (2 powi 128) = 2 powi 128" using p m by (intro round_pos_pow2) simp_all
  ultimately show le: "round_pos fmt (1 + FLT_MAX) \<le> 2 powi 128" by simp
  show "round_pos fmt (1 + FLT_MAX) < 2 powi emax fmt"
  proof (cases "fmt = binary32")
    case True
    have "round_pos binary32 (1 + FLT_MAX) < 2 powi emax binary32"
      unfolding round_pos_top32 by (simp add: FLT_MAX_def binary32_def)
    then show ?thesis using True by simp
  next
    case False
    then have "fmt = binary64" using assms by simp
    moreover have "(2::real) powi 128 < 2 powi 1024" by simp
    ultimately show ?thesis using le by (simp add: binary64_def)
  qed
qed

lemma round_fmt_pos:
  assumes "0 < x" "round_pos fmt x < 2 powi emax fmt"
  shows "round_fmt fmt x = Finite (round_pos fmt x)"
  using assms by (simp add: round_fmt_def Let_def)

lemma score_sum:
  assumes "fmt = binary32 \<or> fmt = binary64" "0 \<le> d" "d \<le> FLT_MAX"
  shows "fp_add fmt (Finite 1) (Finite d) = Finite (round_pos fmt (1 + d))"
    and "1 \<le> round_pos fmt (1 + d)" and "round_pos fmt (1 + d) \<le> 2 powi 128"
proof -
  note t = fmt_top[OF assms(1)]
  have pos: "0 < 1 + d" using assms(2) by simp
  have "round_pos fmt (1 + d) \<le> round_pos fmt (1 + FLT_MAX)"
    using t(1) pos assms(3) by (intro round_pos_mono) simp_all
  then have fin: "round_pos fmt (1 + d) < 2 powi emax fmt" and le: "round_pos fmt (1 + d) \<le> 2 powi 128"
    using t(4,5) by simp_all
  have "fp_add fmt (Finite 1) (Finite d) = round_fmt fmt (1 + d)" by simp
  then show "fp_add fmt (Finite 1) (Finite d) = Finite (round_pos fmt (1 + d))"
    using round_fmt_pos[OF pos fin] by (simp only:)
  have "round_pos fmt 1 \<le> round_pos fmt (1 + d)"
    using t(1) assms(2) by (intro round_pos_mono) simp_all
  moreover have "round_pos fmt 1 = 1" using t(1,2) by (intro round_pos_one) simp_all
  ultimately show "1 \<le> round_pos fmt (1 + d)" by simp
  show "round_pos fmt (1 + d) \<le> 2 powi 128" by (rule le)
qed

lemma score_finite:
  assumes "fmt = binary32 \<or> fmt = binary64" "0 \<le> d" "d \<le> FLT_MAX"
  shows "score fmt d = Finite (round_pos fmt (1 / round_pos fmt (1 + d)))"
    and "0 < round_pos fmt (1 / round_pos fmt (1 + d))"
    and "round_pos fmt (1 / round_pos fmt (1 + d)) \<le> 1"
proof -
  note t = fmt_top[OF assms(1)]
  note s = score_sum[OF assms]
  let ?s = "round_pos fmt (1 + d)"
  have spos: "0 < ?s" using s(2) by simp
  then have ipos: "0 < 1 / ?s" by simp
  have "1 / ?s \<le> 1" using s(2) by simp
  then have "round_pos fmt (1 / ?s) \<le> round_pos fmt 1"
    using t(1) ipos by (intro round_pos_mono)
  moreover have "round_pos fmt 1 = 1" using t(1,2) by (intro round_pos_one) simp_all
  ultimately show le1: "round_pos fmt (1 / ?s) \<le> 1" by simp
  then have fin: "round_pos fmt (1 / ?s) < 2 powi emax fmt" using t(3) by simp
  have "score fmt d = fp_div fmt (Finite 1) (Finite ?s)" unfolding score_def s(1) ..
  also have "\<dots> = round_fmt fmt (1 / ?s)" using spos by simp
  also have "\<dots> = Finite (round_pos fmt (1 / ?s))" using ipos fin by (rule round_fmt_pos)
  finally show "score fmt d = Finite (round_pos fmt (1 / round_pos fmt (1 + d)))" .
  have "(2::real) powi (- 128) = 1 / 2 powi 128" by (simp add: power_int_minus field_simps)
  also have "\<dots> \<le> 1 / ?s" using s(3) spos by (intro divide_left_mono) simp_all
  finally have "(2::real) powi (- 128) \<le> 1 / ?s" .
  then have "round_pos fmt (2 powi (- 128)) \<le> round_pos fmt (1 / ?s)"
    using t(1) by (intro round_pos_mono) simp_all
  moreover have "round_pos fmt (2 powi (- 128)) = 2 powi (- 128)"
    using t(1,2) by (intro round_pos_pow2) simp_all
  moreover have "(0::real) < 2 powi (- 128)" by simp
  ultimately show "0 < round_pos fmt (1 / round_pos fmt (1 + d))" by linarith
qed


lemma collect_hits_in_range:
  "\<forall>p \<in> set found. - int (length chunks) \<le> snd p \<and> snd p < int (length chunks) \<Longrightarrow>
   collect_hits fmt chunks found =
     Inr (map (\<lambda>p. (chunks ! nat (if snd p < 0 then int (length chunks) + snd p else snd p),
                     score fmt (fst p))) found)"
proof (induction found)
  case Nil
  then show ?case by simp
next
  case (Cons p found)
  obtain d i where p: "p = (d, i)" by (cases p)
  have i: "- int (length chunks) \<le> i" "i < int (length chunks)" using Cons.prems p by auto
  have "py_index chunks i = Inr (chunks ! nat (if i < 0 then int (length chunks) + i else i))"
    using i by (auto simp: py_index_def)
  moreover have "collect_hits fmt chunks found =
     Inr (map (\<lambda>p. (chunks ! nat (if snd p < 0 then int (length chunks) + snd p else snd p),
                     score fmt (fst p))) found)"
    using Cons by simp
  ultimately show ?case using p i by simp
qed

lemma candidates_labels:
  "\<forall>p \<in> set (candidates l2sqr ix q). 0 \<le> snd p \<and> snd p < int (length (vectors ix)) \<and> fst p < FLT_MAX"
  by (auto simp: candidates_def split: fp.splits if_splits)



lemma length_astype_float32 [simp]: "length (astype_float32 q) = length q"
  by (simp add: astype_float32_def)

text \<open>
  What the two FAISS searches return for a store that is not empty, whatever the
  distances are: \<open>k\<close> results, one for each vector FAISS found (at most \<open>k\<close>, nearest
  first) and one more for each place left over. The padding labels \<open>-1\<close> pass the test
  \<open>idx < len(chunks)\<close>, and \<open>chunks[-1]\<close> is the last chunk, so every extra result is
  the last chunk again. On an empty store the subscript raises IndexError.
\<close>

lemma search_shape:
  assumes "length q = index_dim ix" "length chunks = length (vectors ix)" "0 < k"
  shows "if chunks = [] then
           faiss_store_search l2sqr fmt \<lparr>store_index = ix, store_chunks = chunks\<rparr> q k = Inl IndexError \<and>
           index_manager_search l2sqr fmt ix chunks q k = Inl IndexError
         else
           (\<exists>found hits.
              found = take (nat k) (sort_key fst (candidates l2sqr ix (astype_float32 q))) \<and>
              hits = map (\<lambda>p. (chunks ! nat (snd p), score fmt (fst p))) found @
                     replicate (nat k - length found) (last chunks, score fmt FLT_MAX) \<and>
              (\<forall>p \<in> set found. 0 \<le> snd p \<and> snd p < int (length chunks)) \<and>
              faiss_store_search l2sqr fmt \<lparr>store_index = ix, store_chunks = chunks\<rparr> q k = Inr hits \<and>
              index_manager_search l2sqr fmt ix chunks q k = Inr hits)"
proof -
  let ?n = "length chunks"
  define found where "found = take (nat k) (sort_key fst (candidates l2sqr ix (astype_float32 q)))"
  have fs: "faiss_search l2sqr ix (astype_float32 q) k =
      Inr (found @ replicate (nat k - length found) (FLT_MAX, - 1))"
    using assms(1,3) by (simp add: faiss_search_def found_def Let_def)
  have "set found \<subseteq> set (candidates l2sqr ix (astype_float32 q))"
    unfolding found_def using set_take_subset[of "nat k" "sort_key fst (candidates l2sqr ix (astype_float32 q))"]
    by simp
  then have lab: "\<forall>p \<in> set found. 0 \<le> snd p \<and> snd p < int ?n"
    using candidates_labels[of l2sqr ix "astype_float32 q"] assms(2) by auto
  show ?thesis
  proof (cases "chunks = []")
    case True
    then have "found = []" using lab by (cases found) auto
    moreover obtain m where "nat k = Suc m" using assms(3) by (cases "nat k") auto
    ultimately have "collect_hits fmt chunks (found @ replicate (nat k - length found) (FLT_MAX, - 1)) =
        Inl IndexError"
      using True by (simp add: py_index_def)
    then show ?thesis using True fs
      by (simp add: faiss_store_search_def index_manager_search_def)
  next
    case False
    let ?all = "found @ replicate (nat k - length found) (FLT_MAX, - 1)"
    have n1: "1 \<le> int ?n" using False by (cases chunks) simp_all
    have "\<forall>p \<in> set ?all. - int ?n \<le> snd p \<and> snd p < int ?n"
    proof
      fix p assume "p \<in> set ?all"
      then consider "p \<in> set found" | "p = (FLT_MAX, - 1)" by auto
      then show "- int ?n \<le> snd p \<and> snd p < int ?n"
      proof cases
        case 1
        then have "0 \<le> snd p \<and> snd p < int ?n" using lab by blast
        then show ?thesis by linarith
      next
        case 2
        then show ?thesis using n1 by simp
      qed
    qed
    from collect_hits_in_range[OF this]
    have "collect_hits fmt chunks ?all =
      Inr (map (\<lambda>p. (chunks ! nat (if snd p < 0 then int ?n + snd p else snd p), score fmt (fst p)))
             found @
           replicate (nat k - length found) (chunks ! nat (int ?n + - 1), score fmt FLT_MAX))"
      by (simp add: map_replicate)
    moreover have "chunks ! nat (int ?n + - 1) = last chunks"
      using False by (simp add: last_conv_nth nat_diff_distrib')
    moreover have "map (\<lambda>p. (chunks ! nat (if snd p < 0 then int ?n + snd p else snd p), score fmt (fst p))) found
        = map (\<lambda>p. (chunks ! nat (snd p), score fmt (fst p))) found"
      using lab by (intro map_cong) auto
    ultimately have "collect_hits fmt chunks ?all =
        Inr (map (\<lambda>p. (chunks ! nat (snd p), score fmt (fst p))) found @
             replicate (nat k - length found) (last chunks, score fmt FLT_MAX))"
      by simp
    then show ?thesis using False fs lab
      by (simp add: faiss_store_search_def index_manager_search_def found_def)
  qed
qed



lemma score_zero:
  assumes "fmt = binary32 \<or> fmt = binary64"
  shows "score fmt 0 = Finite 1"
proof -
  note t = fmt_top[OF assms]
  have one: "round_pos fmt 1 = 1" using t(1,2) by (intro round_pos_one) simp_all
  have "(0::real) \<le> FLT_MAX" by (simp add: FLT_MAX_def)
  from score_finite(1)[OF assms _ this, of ] show ?thesis by (simp add: one)
qed

lemma score_top32: "score binary32 FLT_MAX = Finite (1 / 2 ^ 128)"
proof -
  have b: "binary32 = binary32 \<or> binary32 = binary64" by simp
  have f: "(0::real) \<le> FLT_MAX" "FLT_MAX \<le> FLT_MAX" by (simp_all add: FLT_MAX_def)
  have "(2::real) powi (- 128) \<le> 1 / FLT_MAX" by (simp add: FLT_MAX_def power_int_minus field_simps)
  moreover have "1 / FLT_MAX < 2 powi (- 128 + 1)" by (simp add: FLT_MAX_def power_int_minus field_simps)
  ultimately have fl: "floor_log2 (1 / FLT_MAX) = - 128" by (rule floor_log2_unique)
  have e: "max (- 128 - int (prec binary32) + 1) (emin binary32) = - 149" by (simp add: binary32_def)
  have q: "1 / FLT_MAX / 2 powi (- 149) = of_int (2 ^ 21) + 2 ^ 21 / (2 ^ 24 - 1)"
    by (simp add: FLT_MAX_eq power_int_minus field_simps)
  have "\<lfloor>real_of_int (2 ^ 21) + 2 ^ 21 / (2 ^ 24 - 1)\<rfloor> = 2 ^ 21"
    by (rule floor_unique) simp_all
  then have "round_half_even (1 / FLT_MAX / 2 powi (- 149)) = 2 ^ 21"
    unfolding q round_half_even_def Let_def by simp
  then have "round_pos binary32 (1 / FLT_MAX) = 1 / 2 ^ 128"
    unfolding round_pos_eq fl e by (simp add: power_int_minus)
  then show ?thesis using score_finite(1)[OF b f] by (simp add: round_pos_top32)
qed

lemma ref_kernel_zero: "fvec_L2sqr_ref [Finite 0] [Finite 0] = Finite 0"
  by (simp add: fvec_L2sqr_ref_def fp_sub_def round_fmt_def)

lemma astype_zero: "astype_float32 [Finite 0] = [Finite 0]"
  by (simp add: astype_float32_def round_fmt_def)

text \<open>
  C3. A store with one entry searched with \<open>k = 2\<close> returns two results, both the one
  chunk: the second comes from the padding label \<open>-1\<close>. The same holds for
  \<open>FAISSIndexManager.search\<close>, and for every distance kernel and score format.
\<close>

theorem search_k_beyond_entry_count:
  "faiss_store_search fvec_L2sqr_ref binary32
       \<lparr>store_index = \<lparr>index_dim = 1, vectors = [[Finite 0]]\<rparr>, store_chunks = [''c0'']\<rparr>
       [Finite 0] 2 =
     Inr [(''c0'', Finite 1), (''c0'', Finite (1 / 2 ^ 128))] \<and>
   index_manager_search fvec_L2sqr_ref binary32 \<lparr>index_dim = 1, vectors = [[Finite 0]]\<rparr>
       [''c0''] [Finite 0] 2 =
     Inr [(''c0'', Finite 1), (''c0'', Finite (1 / 2 ^ 128))] \<and>
   (\<forall>l2sqr fmt v q. \<exists>s1 s2.
      faiss_store_search l2sqr fmt
        \<lparr>store_index = \<lparr>index_dim = 1, vectors = [[v]]\<rparr>, store_chunks = [''c0'']\<rparr> [q] 2 =
      Inr [(''c0'', s1), (''c0'', s2)] \<and>
      index_manager_search l2sqr fmt \<lparr>index_dim = 1, vectors = [[v]]\<rparr> [''c0''] [q] 2 =
      Inr [(''c0'', s1), (''c0'', s2)])"
proof (intro conjI allI)
  have b: "binary32 = binary32 \<or> binary32 = binary64" by simp
  have c: "candidates fvec_L2sqr_ref \<lparr>index_dim = 1, vectors = [[Finite 0]]\<rparr> [Finite 0] = [(0, 0)]"
    by (simp add: candidates_def ref_kernel_zero FLT_MAX_def)
  have f: "faiss_search fvec_L2sqr_ref \<lparr>index_dim = 1, vectors = [[Finite 0]]\<rparr> [Finite 0] 2 =
      Inr [(0, 0), (FLT_MAX, - 1)]"
    unfolding faiss_search_def Let_def c by (simp add: numeral_2_eq_2)
  have h: "collect_hits binary32 [''c0''] [(0, 0), (FLT_MAX, - 1)] =
      Inr [(''c0'', Finite 1), (''c0'', Finite (1 / 2 ^ 128))]"
    by (simp add: py_index_def score_zero[OF b] score_top32)
  show "faiss_store_search fvec_L2sqr_ref binary32
       \<lparr>store_index = \<lparr>index_dim = 1, vectors = [[Finite 0]]\<rparr>, store_chunks = [''c0'']\<rparr>
       [Finite 0] 2 =
     Inr [(''c0'', Finite 1), (''c0'', Finite (1 / 2 ^ 128))]"
    unfolding faiss_store_search_def astype_zero
    by (simp only: faiss_store.select_convs f sum.case h)
  show "index_manager_search fvec_L2sqr_ref binary32 \<lparr>index_dim = 1, vectors = [[Finite 0]]\<rparr>
       [''c0''] [Finite 0] 2 =
     Inr [(''c0'', Finite 1), (''c0'', Finite (1 / 2 ^ 128))]"
    unfolding index_manager_search_def astype_zero
    by (simp only: f sum.case h)
next
  fix l2sqr :: "fp list \<Rightarrow> fp list \<Rightarrow> fp" and fmt v q
  let ?ix = "\<lparr>index_dim = 1, vectors = [[v]]\<rparr>"
  let ?q = "astype_float32 [q]"
  have lq: "length ?q = 1" by simp
  have "(\<exists>d. candidates l2sqr ?ix ?q = [(d, 0)]) \<or> candidates l2sqr ?ix ?q = []"
    by (cases "l2sqr ?q [v]") (simp_all add: candidates_def)
  then consider d where "candidates l2sqr ?ix ?q = [(d, 0)]" | "candidates l2sqr ?ix ?q = []"
    by blast
  then show "\<exists>s1 s2.
      faiss_store_search l2sqr fmt \<lparr>store_index = ?ix, store_chunks = [''c0'']\<rparr> [q] 2 =
      Inr [(''c0'', s1), (''c0'', s2)] \<and>
      index_manager_search l2sqr fmt ?ix [''c0''] [q] 2 = Inr [(''c0'', s1), (''c0'', s2)]"
  proof cases
    case 1
    have "faiss_search l2sqr ?ix ?q 2 = Inr [(d, 0), (FLT_MAX, - 1)]"
      unfolding faiss_search_def Let_def 1 using lq by (simp add: numeral_2_eq_2)
    then show ?thesis
      unfolding faiss_store_search_def index_manager_search_def
      by (simp add: py_index_def)
  next
    case 2
    have "faiss_search l2sqr ?ix ?q 2 = Inr [(FLT_MAX, - 1), (FLT_MAX, - 1)]"
      unfolding faiss_search_def Let_def 2 using lq by (simp add: numeral_2_eq_2)
    then show ?thesis
      unfolding faiss_store_search_def index_manager_search_def
      by (simp add: py_index_def)
  qed
qed


lemmas fp_eval = round_fmt_def round_pos_def binary32_def floor_log2_def bit_length.simps
  round_half_even_def Let_def

lemma round32_ints:
  "round_fmt binary32 1 = Finite 1" "round_fmt binary32 2 = Finite 2"
  "round_fmt binary32 3 = Finite 3" "round_fmt binary32 4 = Finite 4"
  "round_fmt binary32 9 = Finite 9" "round_fmt binary32 13 = Finite 13"
  "round_fmt binary32 (- 2) = Finite (- 2)" "round_fmt binary32 (- 3) = Finite (- 3)"
  by (simp_all add: fp_eval)







text \<open>
  A distance that overflows \<open>float32\<close>: the entry \<open>c0\<close> at \<open>2 ^ 67 = 147573952589676412928\<close> is never found,
  and the search with \<open>k = 2\<close> on the two entries returns \<open>c1\<close> twice, the second time
  for the padding label \<open>-1\<close>.
\<close>

lemma search_with_overflowing_distance:
  "faiss_store_search fvec_L2sqr_ref binary32
     \<lparr>store_index = \<lparr>index_dim = 1, vectors = [[Finite 147573952589676412928], [Finite 1]]\<rparr>,
      store_chunks = [''c0'', ''c1'']\<rparr> [Finite 1] 2 =
   Inr [(''c1'', Finite 1), (''c1'', Finite (1 / 2 ^ 128))]"
proof -
  have b: "binary32 = binary32 \<or> binary32 = binary64" by simp
  have q: "astype_float32 [Finite 1] = [Finite 1]"
    by (simp add: astype_float32_def round32_ints)
  have sb: "fp_sub binary32 (Finite 1) (Finite 147573952589676412928) =
      Finite (- 147573952589676412928)"
    by (simp add: fp_sub_def fp_eval)
  have ml: "fp_mul binary32 (Finite (- 147573952589676412928)) (Finite (- 147573952589676412928)) =
      PInf"
    by (simp add: fp_eval)
  have k0: "fvec_L2sqr_ref [Finite 1] [Finite 147573952589676412928] = PInf"
    by (simp only: fvec_L2sqr_ref_def zip_Cons_Cons zip_Nil foldl_Cons foldl_Nil prod.case
        Let_def sb ml fp_add.simps)
  have k1: "fvec_L2sqr_ref [Finite 1] [Finite 1] = Finite 0"
    by (simp add: fvec_L2sqr_ref_def fp_sub_def round_fmt_def)
  have c: "candidates fvec_L2sqr_ref
      \<lparr>index_dim = 1, vectors = [[Finite 147573952589676412928], [Finite 1]]\<rparr> [Finite 1] = [(0, 1)]"
    by (simp add: candidates_def k0 k1 FLT_MAX_def upt_rec)
  have f: "faiss_search fvec_L2sqr_ref
      \<lparr>index_dim = 1, vectors = [[Finite 147573952589676412928], [Finite 1]]\<rparr> [Finite 1] 2 =
      Inr [(0, 1), (FLT_MAX, - 1)]"
    unfolding faiss_search_def Let_def c by (simp add: numeral_2_eq_2)
  have h: "collect_hits binary32 [''c0'', ''c1''] [(0, 1), (FLT_MAX, - 1)] =
      Inr [(''c1'', Finite 1), (''c1'', Finite (1 / 2 ^ 128))]"
    by (simp add: py_index_def score_zero[OF b] score_top32)
  show ?thesis
    unfolding faiss_store_search_def q
    by (simp only: faiss_store.select_convs f sum.case h)
qed

section \<open>Properties of the purge\<close>

lemma purge_step_saved:
  assumes "case snd f of None \<Rightarrow> False
           | Some md \<Rightarrow> md_trial_token md = Some (fst f) \<and> md_expires_at md \<noteq> None"
    "fst f \<in> fst ` set (metadata_files dir)"
  shows "purge_step now (dir, n) f =
     (if expired now (snd f)
      then (dir\<lparr>index_files := (index_files dir)(fst f := None),
                metadata_files := filter (\<lambda>g. fst g \<noteq> fst f) (metadata_files dir)\<rparr>, Suc n)
      else (dir, n))"
  using assms
  by (auto simp: purge_step_def expired_def Let_def split: option.splits)

lemma purge_fold:
  assumes "distinct (map fst fs)"
    "\<forall>f \<in> set fs. case snd f of None \<Rightarrow> False
           | Some md \<Rightarrow> md_trial_token md = Some (fst f) \<and> md_expires_at md \<noteq> None"
    "\<forall>f \<in> set fs. fst f \<in> fst ` set (metadata_files dir)"
  shows "foldl (purge_step now) (dir, n) fs =
     (dir\<lparr>index_files := (\<lambda>t. if t \<in> fst ` {f \<in> set fs. expired now (snd f)} then None
                               else index_files dir t),
          metadata_files := filter (\<lambda>g. fst g \<notin> fst ` {f \<in> set fs. expired now (snd f)})
                              (metadata_files dir)\<rparr>,
      n + length (filter (\<lambda>f. expired now (snd f)) fs))"
  using assms
proof (induction fs arbitrary: dir n)
  case Nil
  then show ?case by simp
next
  case (Cons f fs)
  have wf: "case snd f of None \<Rightarrow> False
           | Some md \<Rightarrow> md_trial_token md = Some (fst f) \<and> md_expires_at md \<noteq> None"
    using Cons.prems(2) by simp
  have here: "fst f \<in> fst ` set (metadata_files dir)" using Cons.prems(3) by simp
  have step: "purge_step now (dir, n) f =
     (if expired now (snd f)
      then (dir\<lparr>index_files := (index_files dir)(fst f := None),
                metadata_files := filter (\<lambda>g. fst g \<noteq> fst f) (metadata_files dir)\<rparr>, Suc n)
      else (dir, n))"
    by (rule purge_step_saved[OF wf here])
  have d: "distinct (map fst fs)" and nf: "fst f \<notin> fst ` set fs" using Cons.prems(1) by auto
  have w: "\<forall>f \<in> set fs. case snd f of None \<Rightarrow> False
           | Some md \<Rightarrow> md_trial_token md = Some (fst f) \<and> md_expires_at md \<noteq> None"
    using Cons.prems(2) by simp
  show ?case
  proof (cases "expired now (snd f)")
    case False
    have p: "\<forall>f \<in> set fs. fst f \<in> fst ` set (metadata_files dir)" using Cons.prems(3) by simp
    have E: "{g \<in> set (f # fs). expired now (snd g)} = {g \<in> set fs. expired now (snd g)}"
      using False by auto
    show ?thesis unfolding E using Cons.IH[OF d w p, of n] step False by simp
  next
    case True
    let ?d1 = "dir\<lparr>index_files := (index_files dir)(fst f := None),
                metadata_files := filter (\<lambda>g. fst g \<noteq> fst f) (metadata_files dir)\<rparr>"
    have p: "\<forall>g \<in> set fs. fst g \<in> fst ` set (metadata_files ?d1)"
    proof
      fix g assume g: "g \<in> set fs"
      then have "fst g \<in> fst ` set fs" by (rule imageI)
      then have "fst g \<noteq> fst f" using nf by metis
      moreover have "fst g \<in> fst ` set (metadata_files dir)" using Cons.prems(3) g by simp
      ultimately show "fst g \<in> fst ` set (metadata_files ?d1)" by auto
    qed
    have E: "fst ` {g \<in> set (f # fs). expired now (snd g)} =
        insert (fst f) (fst ` {g \<in> set fs. expired now (snd g)})"
      using True by auto
    have fl: "filter (\<lambda>g. fst g \<notin> fst ` {g \<in> set fs. expired now (snd g)})
                (filter (\<lambda>g. fst g \<noteq> fst f) (metadata_files dir)) =
              filter (\<lambda>g. fst g \<notin> insert (fst f) (fst ` {g \<in> set fs. expired now (snd g)}))
                (metadata_files dir)"
      by (auto intro: filter_cong)
    have ix: "(\<lambda>t. if t \<in> fst ` {g \<in> set fs. expired now (snd g)} then None
                   else ((index_files dir)(fst f := None)) t) =
              (\<lambda>t. if t \<in> insert (fst f) (fst ` {g \<in> set fs. expired now (snd g)}) then None
                   else index_files dir t)"
      by (rule ext) simp
    have "foldl (purge_step now) (dir, n) (f # fs) = foldl (purge_step now) (?d1, Suc n) fs"
      using step True by simp
    also have "\<dots> =
      (?d1\<lparr>index_files := (\<lambda>t. if t \<in> fst ` {g \<in> set fs. expired now (snd g)} then None
                               else index_files ?d1 t),
          metadata_files := filter (\<lambda>g. fst g \<notin> fst ` {g \<in> set fs. expired now (snd g)})
                              (metadata_files ?d1)\<rparr>,
       Suc n + length (filter (\<lambda>f. expired now (snd f)) fs))"
      by (rule Cons.IH[OF d w p])
    finally have F: "foldl (purge_step now) (dir, n) (f # fs) =
      (?d1\<lparr>index_files := (\<lambda>t. if t \<in> fst ` {g \<in> set fs. expired now (snd g)} then None
                               else index_files ?d1 t),
          metadata_files := filter (\<lambda>g. fst g \<notin> fst ` {g \<in> set fs. expired now (snd g)})
                              (metadata_files ?d1)\<rparr>,
       Suc n + length (filter (\<lambda>f. expired now (snd f)) fs))" .
    have ix2: "(\<lambda>t. if t \<in> fst ` {g \<in> set fs. expired now (snd g)} then None
                    else if t = fst f then None else index_files dir t) =
               (\<lambda>t. if t = fst f \<or> t \<in> fst ` {g \<in> set fs. expired now (snd g)} then None
                    else index_files dir t)"
      by (rule ext) simp
    show ?thesis unfolding E F using True by (simp add: ix2 cong: if_cong)
  qed
qed


lemma saved_dir_save:
  assumes "saved_dir dir"
  shows "saved_dir (save trial_token store now1 now2 dir)"
proof -
  have "distinct (map fst (filter (\<lambda>f. fst f \<noteq> trial_token) (metadata_files dir)))"
    using assms by (simp add: saved_dir_def distinct_map_filter)
  moreover have "trial_token \<notin> fst ` set (filter (\<lambda>f. fst f \<noteq> trial_token) (metadata_files dir))"
    by auto
  ultimately show ?thesis using assms
    by (auto simp: saved_dir_def save_def list_all_iff)
qed

lemma saved_dir_empty: "saved_dir \<lparr>index_files = Map.empty, metadata_files = []\<rparr>"
  by (simp add: saved_dir_def)

text \<open>
  C6. In a directory as \<open>save\<close> leaves it, \<open>purge_expired_trials\<close> run at time \<open>now\<close>
  deletes the metadata file and the index file of every trial with \<open>expires_at < now\<close>,
  leaves the metadata and the index of every other trial as they were, touches no other
  index file, and returns the number of trials it deleted.
\<close>

theorem purge_expired_trials_frame:
  assumes "saved_dir dir"
  shows "\<exists>dir' purged. purge_expired_trials now dir = (dir', purged) \<and>
     (\<forall>f \<in> set (metadata_files dir). expired now (snd f) \<longrightarrow>
        map_of (metadata_files dir') (fst f) = None \<and> index_files dir' (fst f) = None) \<and>
     (\<forall>f \<in> set (metadata_files dir). \<not> expired now (snd f) \<longrightarrow>
        map_of (metadata_files dir') (fst f) = Some (snd f) \<and>
        index_files dir' (fst f) = index_files dir (fst f)) \<and>
     (\<forall>t. t \<notin> fst ` set (metadata_files dir) \<longrightarrow> index_files dir' t = index_files dir t) \<and>
     metadata_files dir' = filter (\<lambda>f. \<not> expired now (snd f)) (metadata_files dir) \<and>
     purged = length (filter (\<lambda>f. expired now (snd f)) (metadata_files dir)) \<and>
     purged + length (metadata_files dir') = length (metadata_files dir) \<and>
     saved_dir dir'"
proof -
  let ?fs = "metadata_files dir"
  let ?E = "fst ` {f \<in> set ?fs. expired now (snd f)}"
  have dist: "distinct (map fst ?fs)" using assms by (simp add: saved_dir_def)
  have wf: "\<forall>f \<in> set ?fs. case snd f of None \<Rightarrow> False
           | Some md \<Rightarrow> md_trial_token md = Some (fst f) \<and> md_expires_at md \<noteq> None"
    using assms by (simp add: saved_dir_def list_all_iff)
  have here: "\<forall>f \<in> set ?fs. fst f \<in> fst ` set (metadata_files dir)" by simp
  define dir' where "dir' = dir\<lparr>index_files := (\<lambda>t. if t \<in> ?E then None else index_files dir t),
          metadata_files := filter (\<lambda>g. fst g \<notin> ?E) ?fs\<rparr>"
  define purged where "purged = length (filter (\<lambda>f. expired now (snd f)) ?fs)"
  have run: "purge_expired_trials now dir = (dir', purged)"
    unfolding purge_expired_trials_def dir'_def purged_def
    using purge_fold[OF dist wf here, of now 0] by simp
  have key: "fst g \<in> ?E \<longleftrightarrow> expired now (snd g)" if "g \<in> set ?fs" for g
  proof
    assume "fst g \<in> ?E"
    then obtain f where f: "f \<in> set ?fs" "expired now (snd f)" "fst f = fst g" by auto
    have "(fst g, snd f) \<in> set ?fs" "(fst g, snd g) \<in> set ?fs"
      using f(1,3) that by (metis prod.collapse)+
    then have "snd f = snd g" using dist by (rule eq_key_imp_eq_value[rotated])
    then show "expired now (snd g)" using f(2) by simp
  next
    assume "expired now (snd g)"
    then show "fst g \<in> ?E" using that by auto
  qed
  have md: "metadata_files dir' = filter (\<lambda>f. \<not> expired now (snd f)) ?fs"
  proof -
    have "filter (\<lambda>g. fst g \<notin> ?E) ?fs = filter (\<lambda>f. \<not> expired now (snd f)) ?fs"
      by (rule filter_cong) (simp_all add: key)
    then show ?thesis by (simp add: dir'_def)
  qed
  have ixf: "index_files dir' t = (if t \<in> ?E then None else index_files dir t)" for t
    by (simp add: dir'_def)
  have d': "distinct (map fst (metadata_files dir'))"
    unfolding md using dist by (rule distinct_map_filter)
  have a: "\<forall>f \<in> set ?fs. expired now (snd f) \<longrightarrow>
        map_of (metadata_files dir') (fst f) = None \<and> index_files dir' (fst f) = None"
  proof (intro ballI impI)
    fix f assume f: "f \<in> set ?fs" "expired now (snd f)"
    have "fst f \<notin> fst ` set (metadata_files dir')"
    proof
      assume "fst f \<in> fst ` set (metadata_files dir')"
      then obtain g where g: "g \<in> set ?fs" "\<not> expired now (snd g)" "fst g = fst f"
        unfolding md by auto
      have "fst g \<in> ?E" using f g(3) by force
      then show False using key[OF g(1)] g(2) by simp
    qed
    then have "map_of (metadata_files dir') (fst f) = None" by (simp add: map_of_eq_None_iff)
    moreover have "index_files dir' (fst f) = None" using f by (auto simp: ixf)
    ultimately show "map_of (metadata_files dir') (fst f) = None \<and> index_files dir' (fst f) = None"
      by simp
  qed
  have b: "\<forall>f \<in> set ?fs. \<not> expired now (snd f) \<longrightarrow>
        map_of (metadata_files dir') (fst f) = Some (snd f) \<and>
        index_files dir' (fst f) = index_files dir (fst f)"
  proof (intro ballI impI)
    fix f assume f: "f \<in> set ?fs" "\<not> expired now (snd f)"
    have "(fst f, snd f) \<in> set (metadata_files dir')" unfolding md using f by simp
    then have "map_of (metadata_files dir') (fst f) = Some (snd f)"
      using d' by (simp add: map_of_is_SomeI)
    moreover have "fst f \<notin> ?E" using key[OF f(1)] f(2) by simp
    then have "index_files dir' (fst f) = index_files dir (fst f)" by (simp only: ixf if_False)
    ultimately show "map_of (metadata_files dir') (fst f) = Some (snd f) \<and>
        index_files dir' (fst f) = index_files dir (fst f)" by simp
  qed
  have c: "\<forall>t. t \<notin> fst ` set ?fs \<longrightarrow> index_files dir' t = index_files dir t"
    by (auto simp: ixf)
  have e: "purged + length (metadata_files dir') = length ?fs"
    unfolding md purged_def using sum_length_filter_compl[of "\<lambda>f. expired now (snd f)" ?fs]
    by simp
  have s: "saved_dir dir'"
    using assms d' unfolding saved_dir_def md by (simp add: list_all_iff)
  show ?thesis
    by (intro exI[of _ dir'] exI[of _ purged] conjI) (fact run a b c md purged_def e s)+
qed

lemma saved_two_trials_dir: "saved_dir two_trials_dir"
  unfolding two_trials_dir_def by (intro saved_dir_save saved_dir_empty)

lemma purge_two_trials_example:
  "(case purge_expired_trials (three_days + 500) two_trials_dir of
      (dir', purged) \<Rightarrow>
        map fst (metadata_files dir') = [''b''] \<and> index_files dir' ''a'' = None \<and>
        index_files dir' ''b'' = Some \<lparr>index_dim = 1, vectors = [[Finite 0]]\<rparr> \<and> purged = 1)"
  by (simp add: purge_expired_trials_def two_trials_dir_def save_def purge_step_def
      one_chunk_store_def three_days_def)

theorem purge_expired_trials_frame_witness:
  "saved_dir two_trials_dir \<and>
   (\<exists>dir' purged. purge_expired_trials (three_days + 500) two_trials_dir = (dir', purged) \<and>
      metadata_files dir' =
        filter (\<lambda>f. \<not> expired (three_days + 500) (snd f)) (metadata_files two_trials_dir) \<and>
      map fst (metadata_files dir') = [''b''] \<and>
      index_files dir' ''a'' = None \<and>
      index_files dir' ''b'' = index_files two_trials_dir ''b'' \<and>
      purged = 1)"
proof -
  from purge_expired_trials_frame[OF saved_two_trials_dir, of "three_days + 500"]
  obtain dir' purged where r:
    "purge_expired_trials (three_days + 500) two_trials_dir = (dir', purged)"
    "metadata_files dir' =
        filter (\<lambda>f. \<not> expired (three_days + 500) (snd f)) (metadata_files two_trials_dir)"
    by blast
  have ex: "map fst (metadata_files dir') = [''b''] \<and> index_files dir' ''a'' = None \<and>
        index_files dir' ''b'' = Some \<lparr>index_dim = 1, vectors = [[Finite 0]]\<rparr> \<and> purged = 1"
    using purge_two_trials_example r(1) by simp
  have "index_files two_trials_dir ''b'' = Some \<lparr>index_dim = 1, vectors = [[Finite 0]]\<rparr>"
    by (simp add: two_trials_dir_def save_def one_chunk_store_def)
  then show ?thesis using saved_two_trials_dir r ex by (intro conjI exI[of _ dir'] exI[of _ purged]) simp_all
qed

section \<open>Properties of the crawlers\<close>

lemma website_step_pages:
  "length (crawled_pages (website_step w m s)) \<le> Suc (length (crawled_pages s))"
  by (auto simp: website_step_def Let_def split: list.splits option.splits)

lemma website_loop_bound:
  "int (length (crawled_pages s)) \<le> max 0 max_pages \<Longrightarrow>
   int (length (website_loop w max_depth max_pages s)) \<le> max 0 max_pages"
proof (induction w max_depth max_pages s rule: website_loop.induct)
  case (1 w max_depth max_pages s)
  show ?case
  proof (cases "to_visit s \<noteq> [] \<and> int (length (crawled_pages s)) < max_pages")
    case True
    have "int (length (crawled_pages (website_step w max_depth s))) \<le> max 0 max_pages"
      using website_step_pages[of w max_depth s] True by linarith
    from "1.IH"[OF True this] show ?thesis
      using True by (subst website_loop.simps) simp
  next
    case False
    then show ?thesis using "1.prems" by (subst website_loop.simps) auto
  qed
qed

text \<open>
  C9 (as amended). \<open>WebsiteCrawler.crawl\<close> always returns, its loop runs exactly while
  the frontier is non-empty and fewer than \<open>max_pages\<close> pages were collected, and the list
  it returns has at most \<open>max_pages\<close> pages (none when \<open>max_pages\<close> is negative).
  \<open>WebCrawler.crawl\<close> has no page limit: its loop runs while the frontier is non-empty.
\<close>

theorem website_crawl_page_limit:
  "int (length (website_crawl w base_url max_depth max_pages)) \<le> max 0 max_pages \<and>
   website_loop w max_depth max_pages s =
     (if to_visit s = [] \<or> max_pages \<le> int (length (crawled_pages s)) then crawled_pages s
      else website_loop w max_depth max_pages (website_step w max_depth s)) \<and>
   web_loop w max_depth s =
     (if to_visit s = [] then crawled_pages s else web_loop w max_depth (web_step w max_depth s))"
proof (intro conjI)
  show "int (length (website_crawl w base_url max_depth max_pages)) \<le> max 0 max_pages"
    unfolding website_crawl_def by (rule website_loop_bound) simp
  show "website_loop w max_depth max_pages s =
     (if to_visit s = [] \<or> max_pages \<le> int (length (crawled_pages s)) then crawled_pages s
      else website_loop w max_depth max_pages (website_step w max_depth s))"
    by (subst website_loop.simps) auto
  show "web_loop w max_depth s =
     (if to_visit s = [] then crawled_pages s else web_loop w max_depth (web_step w max_depth s))"
    by (subst web_loop.simps) auto
qed

lemma website_crawl_example:
  "map page_url (website_crawl two_page_site ''/'' 1 50) = [''/'', ''/a''] \<and>
   map page_url (website_crawl two_page_site ''/'' 1 1) = [''/''] \<and>
   map page_url (website_crawl two_page_site ''/'' 0 50) = [''/'']"
  by code_simp

theorem website_crawl_page_limit_witness:
  "int (length (website_crawl two_page_site ''/'' 1 1)) \<le> 1 \<and>
   map page_url (website_crawl two_page_site ''/'' 1 1) = [''/'']"
  using website_crawl_page_limit[of two_page_site "''/''" 1 1] website_crawl_example
  by simp

lemma crawl_website_example:
  "map page_url (crawl_website two_page_site
     \<lparr>ds_url = ''/'', ds_crawl_depth = Some 1, ds_max_pages = 1\<rparr>) = [''/'', ''/a'']"
  by code_simp

theorem web_crawl_page_limit_counterexample:
  "\<not> int (length (crawl_website two_page_site
          \<lparr>ds_url = ''/'', ds_crawl_depth = Some 1, ds_max_pages = 1\<rparr>))
      \<le> ds_max_pages \<lparr>ds_url = ''/'', ds_crawl_depth = Some 1, ds_max_pages = 1\<rparr>"
proof -
  have "length (map page_url (crawl_website two_page_site
     \<lparr>ds_url = ''/'', ds_crawl_depth = Some 1, ds_max_pages = 1\<rparr>)) = 2"
    unfolding crawl_website_example by simp
  then show ?thesis by simp
qed

end
